theory Spec2Isabelle
  imports Main "HOL-Library.Char_ord"
begin

section \<open>The browser job orchestrator of \<open>src/app/api/sessions/upload/route.ts\<close>\<close>

text \<open>
  The file holds the upload route followed by two successive texts of the Puppeteer
  manager (lines 59-559 and 561-1076). \<open>sanitizeName\<close>, \<open>ensureUserDir\<close>, the
  partition and the worker pool of \<open>startJoinGroups\<close>, the worker of
  \<open>startPostAndComment\<close> and \<open>stopAll\<close> read alike in both; where the second text
  adds a call, the section of the function says so. The two texts differ in
  \<open>startCreateSessions\<close>: what is taken from the first text (lines 102-193) carries
  the suffix \<open>_a\<close>, what is taken from the second (lines 604-692) the suffix \<open>_b\<close>.

  Strings are \<^typ>\<open>string\<close>. A JavaScript string is a sequence of 16-bit code
  units; the two patterns of the source only name ASCII characters, and every code unit
  above them is treated as the non-ASCII characters of \<^typ>\<open>char\<close> are.
\<close>

subsection \<open>Session Directory: \<open>sanitizeName\<close> (lines 86-88)\<close>

definition isLower :: "char \<Rightarrow> bool" where
  "isLower c = (CHR ''a'' \<le> c \<and> c \<le> CHR ''z'')"

definition isUpper :: "char \<Rightarrow> bool" where
  "isUpper c = (CHR ''A'' \<le> c \<and> c \<le> CHR ''Z'')"

definition isDigit :: "char \<Rightarrow> bool" where
  "isDigit c = (CHR ''0'' \<le> c \<and> c \<le> CHR ''9'')"

text \<open>The character class \<open>a-z0-9_.@-\<close> as the pattern writes it.\<close>

definition inClass :: "char \<Rightarrow> bool" where
  "inClass c =
     (isLower c \<or> isDigit c \<or> c = CHR ''_'' \<or> c = CHR ''.'' \<or> c = CHR ''@'' \<or> c = CHR ''-'')"

text \<open>
  The \<open>i\<close> flag compares canonical forms: a character is mapped to its upper case,
  except that a non-ASCII character never maps to an ASCII one. For the ASCII class above
  only the mapping of \<open>a\<close>..\<open>z\<close> matters.
\<close>

definition canonicalize :: "char \<Rightarrow> char" where
  "canonicalize c = (if isLower c then char_of (of_char c - (32::nat)) else c)"

definition classMatches :: "char \<Rightarrow> bool" where
  "classMatches c = (\<exists>a. inClass a \<and> canonicalize a = canonicalize c)"

text \<open>
  \<open>s.replace(/[^a-z0-9_.@-]/ig, '_')\<close>: with the \<open>g\<close> flag every character that the
  negated class matches is replaced, one character at a time.
\<close>

definition sanitizeName :: "string \<Rightarrow> string" where
  "sanitizeName s = map (\<lambda>c. if classMatches c then c else CHR ''_'') s"

text \<open>The pattern \<open>^[a-zA-Z0-9_.@-]*$\<close> of the specification, character by character.\<close>

definition safeChar :: "char \<Rightarrow> bool" where
  "safeChar c =
     (isLower c \<or> isUpper c \<or> isDigit c \<or>
      c = CHR ''_'' \<or> c = CHR ''.'' \<or> c = CHR ''@'' \<or> c = CHR ''-'')"

definition safeName :: "string \<Rightarrow> bool" where
  "safeName s = list_all safeChar s"

subsection \<open>Data: errors, accounts, jobs, outcomes\<close>

text \<open>A thrown \<open>Error\<close> with its message; a rejected promise carries one.\<close>

datatype exn = Error string

record account =
  nomorAkun :: string
  email :: string
  password :: string

text \<open>
  A job of the registry \<open>JOBS\<close> owns a list of browser handles (of a type \<open>'b\<close>)
  and the cancellation flag.
\<close>

record 'b job =
  browsers :: "'b list"
  stopRequested :: bool

record summary =
  success :: nat
  failed :: nat

record sessionSummary = summary +
  total :: nat

text \<open>An entry of a Group Join outcome's \<open>groups\<close>: \<open>{group, ok, message?}\<close>.\<close>

record linkResult =
  group :: string
  ok :: bool
  message :: "string option"

text \<open>
  The records the three entry points push to their \<open>results\<close> arrays (typed
  \<open>any[]\<close> in the source), one constructor per shape:
  \<^item> \<open>AccountOutcome nomorAkun email ok path message\<close>, pushed by \<open>startCreateSessions\<close>;
  \<^item> \<open>JoinOutcome session ok message summary groups\<close>, pushed by \<open>startJoinGroups\<close>;
  \<^item> \<open>SessionFailure session message\<close> for \<open>{session, ok: false, message}\<close> and
    \<open>TargetOutcome session group ok\<close> for \<open>{session, group, ok}\<close>, pushed by the worker
    of \<open>startPostAndComment\<close>;
  \<^item> \<open>AttemptRecord post comment message\<close> for \<open>{post, comment, message}\<close>, which
    \<open>attemptPostingWithRetries\<close> pushes to the same array; it has no \<open>ok\<close>.
\<close>

datatype outcome =
    AccountOutcome string string bool "string option" "string option"
  | JoinOutcome string bool string sessionSummary "linkResult list"
  | SessionFailure string string
  | TargetOutcome string string bool
  | AttemptRecord bool bool string

text \<open>The property \<open>r.ok\<close>; \<open>None\<close> is \<open>undefined\<close>.\<close>

fun okField :: "outcome \<Rightarrow> bool option" where
  "okField (AccountOutcome n e b p m) = Some b"
| "okField (JoinOutcome s b m sm gs) = Some b"
| "okField (SessionFailure s m) = Some False"
| "okField (TargetOutcome s g b) = Some b"
| "okField (AttemptRecord p c m) = None"

text \<open>
  The specification's words, for comparison: an Outcome is one record per work item, or
  per work item and sub-target (per discovered group during posting). The top-level
  Outcomes are the records of the work items themselves: of an account, of a session of
  Group Join, of a session of Post + Comment. The record of a target of a session and
  the record of an attempt are not top-level.
\<close>

fun topLevel :: "outcome \<Rightarrow> bool" where
  "topLevel (AccountOutcome n e b p m) = True"
| "topLevel (JoinOutcome s b m sm gs) = True"
| "topLevel (SessionFailure s m) = True"
| "topLevel (TargetOutcome s g b) = False"
| "topLevel (AttemptRecord p c m) = False"

subsection \<open>Result Aggregator (lines 180-181, 527-528, 684-685, 1044-1045)\<close>

text \<open>
  \<open>results.filter(r => r.ok === true).length\<close> and
  \<open>results.filter(r => r.ok === false).length\<close>.
\<close>

definition summarize :: "outcome list \<Rightarrow> summary" where
  "summarize results =
     \<lparr>success = length (filter (\<lambda>r. okField r = Some True) results),
      failed = length (filter (\<lambda>r. okField r = Some False) results)\<rparr>"

text \<open>The records that one of the two filters keeps: those whose \<open>ok\<close> is a boolean.\<close>

definition hasOk :: "outcome \<Rightarrow> bool" where
  "hasOk r = (okField r = Some True \<or> okField r = Some False)"

subsection \<open>The world outside: file system and browser\<close>

text \<open>
  Every awaited call on a browser or a page is a \<open>step\<close>; the world says, for the work
  item at index \<open>i\<close>, whether the step resolves (\<open>None\<close>) or rejects (\<open>Some e\<close>).
  Every awaited call is taken to settle. The steps of Group Join carry the position of
  the link, those of Post + Comment the position of the target and the number of the
  attempt. \<open>path.join\<close> and the data directory are parameters.
\<close>

datatype step =
    Launch | NewPage | GotoHome | ProbeMarker | WaitLoginForm | TypeEmail | TypePass
  | PressEnter | VerifyMarker | CloseBrowser | GotoLink nat | WaitJoinButton nat
  | ScanAnchors | ProbeAnon nat nat | ProbeAltAnon nat nat | ChooseFile nat nat
  | AcceptFile nat nat | TypeCaption nat nat | WaitSubmit nat nat | ClickSubmit nat nat
  | CommentBox nat nat

record world =
  dataDir :: string
  pathJoin :: "string \<Rightarrow> string \<Rightarrow> string"
  existsSync :: "string \<Rightarrow> bool"
  mkdirSync :: "string \<Rightarrow> exn option"
  page :: "nat \<Rightarrow> step \<Rightarrow> exn option"

text \<open>\<open>ensureUserDir\<close> (lines 96-100); \<open>mkdirSync\<close> may throw.\<close>

definition ensureUserDir :: "world \<Rightarrow> string \<Rightarrow> exn + string" where
  "ensureUserDir w userId =
     (let dir = pathJoin w (dataDir w) userId in
      if \<not> existsSync w dir then
        (case mkdirSync w dir of Some e \<Rightarrow> Inl e | None \<Rightarrow> Inr dir)
      else Inr dir)"

text \<open>
  Awaited calls in sequence: the first that rejects ends the sequence. The result is the
  calls made, in order, and the error if one rejected.
\<close>

fun runSteps :: "(step \<Rightarrow> exn option) \<Rightarrow> step list \<Rightarrow> step list \<times> exn option" where
  "runSteps env [] = ([], None)"
| "runSteps env (s # ss) =
     (case env s of
        Some e \<Rightarrow> ([s], Some e)
      | None \<Rightarrow> (let (t, r) = runSteps env ss in (s # t, r)))"

text \<open>The state of a promise: of a worker, or of an entry point.\<close>

datatype 'a promise = Pending | Rejected exn | Resolved 'a

subsection \<open>Post + Comment: the URL pattern of the discovery (lines 497-501, 1014-1018)\<close>

text \<open>
  The pattern \<open>urlsPattern\<close> as a sequence of pattern items: the literal characters
  of \<open>facebook.com/groups/\<close>, one or more digits, an optional slash and the end of
  input. \<open>matchSeq p s\<close>
  holds when \<open>p\<close> matches a prefix of \<open>s\<close>, whichever way the quantifiers split it.
\<close>

datatype rx = Chr char | PlusDigit | Opt char | Eos

fun matchSeq :: "rx list \<Rightarrow> string \<Rightarrow> bool" where
  "matchSeq [] s = True"
| "matchSeq (Chr c # rs) [] = False"
| "matchSeq (Chr c # rs) (x # xs) = (x = c \<and> matchSeq rs xs)"
| "matchSeq (PlusDigit # rs) [] = False"
| "matchSeq (PlusDigit # rs) (x # xs) =
     (isDigit x \<and> (matchSeq (PlusDigit # rs) xs \<or> matchSeq rs xs))"
| "matchSeq (Opt c # rs) [] = matchSeq rs []"
| "matchSeq (Opt c # rs) (x # xs) = ((x = c \<and> matchSeq rs xs) \<or> matchSeq rs (x # xs))"
| "matchSeq (Eos # rs) [] = matchSeq rs []"
| "matchSeq (Eos # rs) (x # xs) = False"

fun tails :: "'a list \<Rightarrow> 'a list list" where
  "tails [] = [[]]"
| "tails (x # xs) = (x # xs) # tails xs"

text \<open>\<open>RegExp.prototype.test\<close> without the sticky flag: a match may start anywhere.\<close>

definition regexTest :: "rx list \<Rightarrow> string \<Rightarrow> bool" where
  "regexTest p s = list_ex (matchSeq p) (tails s)"

definition urlsPattern :: "rx list" where
  "urlsPattern = map Chr ''facebook.com/groups/'' @ [PlusDigit, Opt CHR ''/'', Eos]"

text \<open>
  The discovery loop: \<open>hrefs\<close> are the \<open>href\<close>s of the scanned anchors, in page
  order; each one the pattern accepts is pushed to \<open>urls\<close>.
\<close>

definition discoverUrls :: "string list \<Rightarrow> string list" where
  "discoverUrls hrefs = filter (regexTest urlsPattern) hrefs"

text \<open>
  The specification's words, for comparison: a URL is \<^emph>\<open>exactly a numeric group
  root\<close> when it is a \<open>facebook.com\<close> group URL (scheme, then the host
  \<open>facebook.com\<close> or a subdomain of it) whose path is \<open>/groups/<digits>\<close> with at
  most a trailing slash and nothing else.
\<close>

definition stripScheme :: "string \<Rightarrow> string option" where
  "stripScheme url =
     (if take 8 url = ''https://'' then Some (drop 8 url)
      else if take 7 url = ''http://'' then Some (drop 7 url)
      else None)"

definition facebookHost :: "string \<Rightarrow> bool" where
  "facebookHost h = (h = ''facebook.com'' \<or> drop (length h - 13) h = ''.facebook.com'')"

definition groupsPath :: "string \<Rightarrow> bool" where
  "groupsPath p = matchSeq (map Chr ''/groups/'' @ [PlusDigit, Opt CHR ''/'', Eos]) p"

definition numericGroupRoot :: "string \<Rightarrow> bool" where
  "numericGroupRoot url =
     (case stripScheme url of
        None \<Rightarrow> False
      | Some r \<Rightarrow>
          facebookHost (takeWhile (\<lambda>c. c \<noteq> CHR ''/'') r) \<and>
          groupsPath (dropWhile (\<lambda>c. c \<noteq> CHR ''/'') r))"

subsection \<open>Job Registry: \<open>stopAll\<close> (lines 542-559, 1059-1076)\<close>

text \<open>
  \<open>JOBS\<close> is a \<open>Map\<close>: an association list in insertion order. What \<open>stopAll\<close>
  does to the browsers is recorded as a list of actions: \<open>Close b\<close> for a call of
  \<open>b.close()\<close>, \<open>Kill p\<close> for \<open>proc.kill('SIGKILL')\<close> on the process \<open>p\<close>. The world
  decides whether \<open>b.close()\<close> rejects (\<open>closeRejects\<close>) and what \<open>b.process()\<close>
  returns (\<open>None\<close> for \<open>null\<close>). An error of \<open>kill\<close> is swallowed by the source.
  Every \<open>close\<close> is taken to settle, and \<open>stopAll\<close> is run from start to end
  without a worker running in between.
\<close>

datatype ('b, 'p) action = Close 'b | Kill 'p

fun closeBrowsers :: "('b \<Rightarrow> bool) \<Rightarrow> ('b \<Rightarrow> 'p option) \<Rightarrow> 'b list \<Rightarrow> ('b, 'p) action list" where
  "closeBrowsers closeRejects process [] = []"
| "closeBrowsers closeRejects process (b # bs) =
     (if closeRejects b then
        (case process b of
           Some proc \<Rightarrow> [Close b, Kill proc]
         | None \<Rightarrow> [Close b])
      else [Close b])
     @ closeBrowsers closeRejects process bs"

fun stopJobs ::
  "('b \<Rightarrow> bool) \<Rightarrow> ('b \<Rightarrow> 'p option) \<Rightarrow> (string \<times> 'b job) list
    \<Rightarrow> (string \<times> 'b job) list \<times> ('b, 'p) action list" where
  "stopJobs closeRejects process [] = ([], [])"
| "stopJobs closeRejects process ((jid, j) # rest) =
     (let acts = closeBrowsers closeRejects process (browsers j);
          (js, acts') = stopJobs closeRejects process rest
      in ((jid, j\<lparr>stopRequested := True\<rparr>) # js, acts @ acts'))"

text \<open>
  The result: the registry after \<open>JOBS.clear()\<close>, the job objects as the loop left them
  (their workers still hold them), and the actions taken.
\<close>

record ('b, 'p) stopResult =
  registry :: "(string \<times> 'b job) list"
  stopped :: "(string \<times> 'b job) list"
  actions :: "('b, 'p) action list"

definition stopAll ::
  "('b \<Rightarrow> bool) \<Rightarrow> ('b \<Rightarrow> 'p option) \<Rightarrow> (string \<times> 'b job) list \<Rightarrow> ('b, 'p) stopResult" where
  "stopAll closeRejects process JOBS =
     (let (js, acts) = stopJobs closeRejects process JOBS
      in \<lparr>registry = [], stopped = js, actions = acts\<rparr>)"

definition trackedBrowsers :: "(string \<times> 'b job) list \<Rightarrow> 'b list" where
  "trackedBrowsers JOBS = concat (map (\<lambda>(jid, j). browsers j) JOBS)"

subsection \<open>Group Join: the partition of the links (lines 209-220, 708-719)\<close>

text \<open>
  \<open>Math.floor(idx / groupsPerSession)\<close> for an index and an integer
  \<open>groupsPerSession\<close>: division by zero gives \<open>NaN\<close> (for \<open>0 / 0\<close>) or
  \<open>Infinity\<close>, and both compare \<open>false\<close> with \<open>sessionNames.length\<close>. A
  \<open>groupsPerSession\<close> that is no integer is outside this model.
\<close>

datatype jsnum = Finite int | PosInfinity | NaN

definition floorQuotient :: "nat \<Rightarrow> int \<Rightarrow> jsnum" where
  "floorQuotient idx k =
     (if k = 0 then (if idx = 0 then NaN else PosInfinity) else Finite (int idx div k))"

text \<open>
  \<open>sessionNames[n]\<close> as a property key: out of range it is \<open>undefined\<close>, which as a
  key reads \<open>"undefined"\<close>.
\<close>

definition elementKey :: "string list \<Rightarrow> int \<Rightarrow> string" where
  "elementKey names n = (if 0 \<le> n \<and> nat n < length names then names ! nat n else ''undefined'')"

text \<open>
  The \<open>forEach\<close> over \<open>groupLinks\<close>, from index \<open>idx\<close> on. \<open>groupsBySession\<close> is a
  map from names to lists; \<open>push\<close> on a missing entry throws a \<open>TypeError\<close>.
\<close>

fun assignLinks ::
  "string list \<Rightarrow> int \<Rightarrow> nat \<Rightarrow> string list \<Rightarrow> (string \<rightharpoonup> string list)
    \<Rightarrow> exn + (string \<rightharpoonup> string list)" where
  "assignLinks names k idx [] g = Inr g"
| "assignLinks names k idx (link # rest) g =
     (case floorQuotient idx k of
        Finite n \<Rightarrow>
          (if n < int (length names) then
             (case g (elementKey names n) of
                None \<Rightarrow> Inl (Error ''TypeError'')
              | Some ls \<Rightarrow>
                  assignLinks names k (Suc idx) rest (g(elementKey names n \<mapsto> ls @ [link])))
           else assignLinks names k (Suc idx) rest g)
      | PosInfinity \<Rightarrow> assignLinks names k (Suc idx) rest g
      | NaN \<Rightarrow> assignLinks names k (Suc idx) rest g)"

definition groupsBySession ::
  "string list \<Rightarrow> string list \<Rightarrow> int \<Rightarrow> exn + (string \<rightharpoonup> string list)" where
  "groupsBySession sessionNames groupLinks groupsPerSession =
     assignLinks sessionNames groupsPerSession 0 groupLinks
       (fold (\<lambda>n g. g(n \<mapsto> [])) sessionNames Map.empty)"

text \<open>\<open>groupsBySession[sessName] || []\<close>, as the worker reads it.\<close>

definition groupsFor :: "(string \<rightharpoonup> string list) \<Rightarrow> string \<Rightarrow> string list" where
  "groupsFor g sessName = (case g sessName of None \<Rightarrow> [] | Some ls \<Rightarrow> ls)"

subsection \<open>Session Creation: one item (lines 113-171 and 621-676)\<close>

text \<open>
  What the body of the worker's loop does for one claimed account: the awaited browser
  calls in order (\<open>trace\<close>), the Outcomes pushed to \<open>results\<close>, the error that leaves
  the body if one does (\<open>thrown\<close>), and whether the browser is still listed in
  \<open>job.browsers\<close> afterwards (\<open>tracked\<close>). Calls that cannot reject and whose result
  is not read (the race of \<open>waitForNavigation\<close> against a delay, the delays) are not in
  the trace.
\<close>

record itemRun =
  trace :: "step list"
  pushed :: "outcome list"
  thrown :: "exn option"
  tracked :: bool

definition accountOk :: "account \<Rightarrow> string \<Rightarrow> string option \<Rightarrow> outcome" where
  "accountOk acc sessionPath msg = AccountOutcome (nomorAkun acc) (email acc) True (Some sessionPath) msg"

definition accountFailed :: "account \<Rightarrow> string \<Rightarrow> outcome" where
  "accountFailed acc msg = AccountOutcome (nomorAkun acc) (email acc) False None (Some msg)"

text \<open>\<open>if (!fs.existsSync(sessionPath)) fs.mkdirSync(sessionPath, ...)\<close>.\<close>

definition ensureSessionDir :: "world \<Rightarrow> string \<Rightarrow> exn option" where
  "ensureSessionDir w sessionPath =
     (if \<not> existsSync w sessionPath then mkdirSync w sessionPath else None)"

text \<open>
  The first text (lines 113-171). The navigation's error is swallowed by \<open>.catch\<close>; the
  inner \<open>try\<close> covers the login form; \<open>browser.close()\<close> stands at the end of the
  outer \<open>try\<close>, whose \<open>catch\<close> pushes a failure.
\<close>

definition createItem_a :: "world \<Rightarrow> nat \<Rightarrow> account \<Rightarrow> string \<Rightarrow> itemRun" where
  "createItem_a w i acc sessionPath =
     (let env = page w i;
          failure = accountFailed acc ''Gagal login atau selector berubah''
      in case ensureSessionDir w sessionPath of
           Some e \<Rightarrow> \<lparr>trace = [], pushed = [failure], thrown = None, tracked = False\<rparr>
         | None \<Rightarrow>
            (case env Launch of
               Some e \<Rightarrow> \<lparr>trace = [Launch], pushed = [failure], thrown = None, tracked = False\<rparr>
             | None \<Rightarrow>
                (case env NewPage of
                   Some e \<Rightarrow>
                     \<lparr>trace = [Launch, NewPage], pushed = [failure], thrown = None, tracked = True\<rparr>
                 | None \<Rightarrow>
                    (let (t, r) = runSteps env [WaitLoginForm, TypeEmail, TypePass, PressEnter];
                         out = (case r of None \<Rightarrow> accountOk acc sessionPath None
                                | Some e \<Rightarrow> failure);
                         tr = [Launch, NewPage, GotoHome] @ t @ [CloseBrowser]
                     in case env CloseBrowser of
                          None \<Rightarrow> \<lparr>trace = tr, pushed = [out], thrown = None, tracked = False\<rparr>
                        | Some e \<Rightarrow>
                            \<lparr>trace = tr, pushed = [out, failure], thrown = None, tracked = True\<rparr>))))"

text \<open>
  The second text (lines 621-676). The navigation is awaited inside the outer \<open>try\<close>
  without a \<open>.catch\<close>; the probe for the authenticated marker comes first, the login
  form second; \<open>browser.close()\<close> stands in \<open>finally\<close>, guarded by \<open>if (browser)\<close>.
  This text never pushes the browser to \<open>job.browsers\<close>.
\<close>

definition loginFlow_b :: "(step \<Rightarrow> exn option) \<Rightarrow> account \<Rightarrow> string \<Rightarrow> step list \<times> outcome" where
  "loginFlow_b env acc sessionPath =
     (case env ProbeMarker of
        None \<Rightarrow> ([ProbeMarker], accountOk acc sessionPath (Some ''Sesi sudah ada dan valid''))
      | Some e \<Rightarrow>
          (let (t, r) = runSteps env [WaitLoginForm, TypeEmail, TypePass, PressEnter, VerifyMarker]
           in (ProbeMarker # t,
               case r of
                 None \<Rightarrow> accountOk acc sessionPath (Some ''Login berhasil, sesi baru dibuat'')
               | Some e' \<Rightarrow>
                   accountFailed acc ''Gagal login: email/password salah atau halaman berubah.'')))"

definition createItem_b :: "world \<Rightarrow> nat \<Rightarrow> account \<Rightarrow> string \<Rightarrow> itemRun" where
  "createItem_b w i acc sessionPath =
     (let env = page w i;
          failure = accountFailed acc ''Gagal membuka browser atau koneksi ke Facebook bermasalah.''
      in case ensureSessionDir w sessionPath of
           Some e \<Rightarrow> \<lparr>trace = [], pushed = [failure], thrown = None, tracked = False\<rparr>
         | None \<Rightarrow>
            (case env Launch of
               Some e \<Rightarrow> \<lparr>trace = [Launch], pushed = [failure], thrown = None, tracked = False\<rparr>
             | None \<Rightarrow>
                (let (t, r) = runSteps env [NewPage, GotoHome];
                     (t', out) = (case r of Some e \<Rightarrow> ([], failure)
                                  | None \<Rightarrow> loginFlow_b env acc sessionPath)
                 in \<lparr>trace = Launch # t @ t' @ [CloseBrowser], pushed = [out],
                      thrown = env CloseBrowser, tracked = False\<rparr>)))"

text \<open>
  A browser launched for the item is left open when \<open>puppeteer.launch\<close> resolved and no
  \<open>browser.close()\<close> resolved afterwards.
\<close>

definition leftOpen :: "world \<Rightarrow> nat \<Rightarrow> itemRun \<Rightarrow> bool" where
  "leftOpen w i r =
     (Launch \<in> set (trace r) \<and> page w i Launch = None \<and>
      \<not> (CloseBrowser \<in> set (trace r) \<and> page w i CloseBrowser = None))"

subsection \<open>Session Creation: the entry point of the second text (lines 604-692)\<close>

text \<open>
  A call of the \<open>async\<close> function \<open>worker()\<close> runs until its first \<open>await\<close> and
  returns a promise. In the second text the first \<open>await\<close> is the one of
  \<open>puppeteer.launch\<close>; before it, the worker claims an index and makes the session
  directory, and when \<open>mkdirSync\<close> throws it pushes a failure and claims the next
  index at once. The promise is \<open>Pending\<close> at the launch of item \<open>i\<close>, or it is resolved
  because the loop ended.
\<close>

record cpool =
  index :: nat
  results :: "outcome list"

datatype cworker = AwaitingLaunch nat | Returned

function workerStart_b ::
  "world \<Rightarrow> string \<Rightarrow> account list \<Rightarrow> 'b job \<Rightarrow> cpool \<Rightarrow> cpool \<times> cworker" where
  "workerStart_b w userDir accounts jb p =
     (if index p < length accounts \<and> \<not> stopRequested jb then
        (let i = index p;
             acc = accounts ! i;
             sessionPath = pathJoin w userDir (sanitizeName (nomorAkun acc));
             p1 = p\<lparr>index := Suc i\<rparr>
         in case ensureSessionDir w sessionPath of
              Some e \<Rightarrow>
                workerStart_b w userDir accounts jb
                  (p1\<lparr>results := results p1 @
                     [accountFailed acc ''Gagal membuka browser atau koneksi ke Facebook bermasalah.'']\<rparr>)
            | None \<Rightarrow> (p1, AwaitingLaunch i))
      else (p, Returned))"
  by pat_completeness auto
termination
  by (relation "measure (\<lambda>(w, userDir, accounts, jb, p). length accounts - index p)") auto

declare workerStart_b.simps [simp del]

text \<open>\<open>Array.from({ length: concurrency }, () => worker())\<close>: the calls in order.\<close>

fun spawn :: "nat \<Rightarrow> ('s \<Rightarrow> 's \<times> 'w) \<Rightarrow> 's \<Rightarrow> 's \<times> 'w list" where
  "spawn 0 start p = (p, [])"
| "spawn (Suc n) start p =
     (let (p1, st) = start p; (p2, sts) = spawn n start p1 in (p2, st # sts))"

text \<open>
  The value the entry point resolves with (\<open>jobId\<close> left out), and the state of the
  worker promises at that moment. \<open>Promise.all(workers)\<close> is not awaited: after the
  workers are spawned, the summary is computed and the function returns.
\<close>

record createReturn =
  returnedResults :: "outcome list"
  returnedSummary :: summary
  workerStates :: "cworker list"

definition startCreateSessions_b ::
  "world \<Rightarrow> string \<Rightarrow> account list \<Rightarrow> nat \<Rightarrow> exn + createReturn" where
  "startCreateSessions_b w userId accounts concurrency =
     (case ensureUserDir w userId of
        Inl e \<Rightarrow> Inl e
      | Inr userDir \<Rightarrow>
          (let jb = \<lparr>browsers = ([] :: nat list), stopRequested = False\<rparr>;
               (p, sts) = spawn concurrency (workerStart_b w userDir accounts jb)
                            \<lparr>index = 0, results = []\<rparr>
           in Inr \<lparr>returnedResults = results p, returnedSummary = summarize (results p),
                   workerStates = sts\<rparr>))"

subsection \<open>A stub world\<close>

text \<open>
  The stub of the specification's scenarios: no directory exists yet, every directory can
  be made, and every browser call resolves (so the authenticated marker is always shown).
  \<open>rejecting s e\<close> is the stub in which the browser call \<open>s\<close> rejects with \<open>e\<close>.
\<close>

definition stubWorld :: world where
  "stubWorld =
     \<lparr>dataDir = ''./data'', pathJoin = (\<lambda>a b. a @ ''/'' @ b), existsSync = (\<lambda>p. False),
      mkdirSync = (\<lambda>p. None), page = (\<lambda>i s. None)\<rparr>"

definition rejecting :: "step \<Rightarrow> exn \<Rightarrow> world" where
  "rejecting s e = stubWorld\<lparr>page := (\<lambda>i s'. if s' = s then Some e else None)\<rparr>"

definition acct111 :: account where
  "acct111 = \<lparr>nomorAkun = ''111'', email = ''a@x.com'', password = ''p''\<rparr>"

subsection \<open>Group Join: the worker pool (lines 222-309, 721-805)\<close>

definition missingOutcome :: "string \<Rightarrow> outcome" where
  "missingOutcome sessName =
     JoinOutcome sessName False ''Session folder tidak ditemukan''
       \<lparr>success = 0, failed = 1, total = 1\<rparr> []"

definition doneOutcome :: "string \<Rightarrow> nat \<Rightarrow> nat \<Rightarrow> linkResult list \<Rightarrow> outcome" where
  "doneOutcome sessName sessionSuccess sessionFail sessionResults =
     JoinOutcome sessName True ''Selesai''
       \<lparr>success = sessionSuccess, failed = sessionFail, total = sessionSuccess + sessionFail\<rparr>
       sessionResults"

text \<open>
  One iteration of the loop over the session's links, after its check of the flag: the
  navigation to the link at position \<open>j\<close> may reject, which the inner \<open>catch\<close> records
  with the error's message; the wait for the join button yields the button or \<open>null\<close>;
  the clicks and delays cannot reject. (The second text also clicks a second label when
  the button is \<open>null\<close>; that click's outcome is not read.)
\<close>

definition joinLink ::
  "(step \<Rightarrow> exn option) \<Rightarrow> nat \<Rightarrow> string \<Rightarrow> nat \<times> nat \<times> linkResult list
    \<Rightarrow> nat \<times> nat \<times> linkResult list" where
  "joinLink env j link acc =
     (case acc of (sessionSuccess, sessionFail, sessionResults) \<Rightarrow>
        (case env (GotoLink j) of
           Some (Error msg) \<Rightarrow>
             (sessionSuccess, Suc sessionFail,
              sessionResults @ [\<lparr>group = link, ok = False, message = Some msg\<rparr>])
         | None \<Rightarrow>
             (case env (WaitJoinButton j) of
                None \<Rightarrow>
                  (Suc sessionSuccess, sessionFail,
                   sessionResults @ [\<lparr>group = link, ok = True, message = None\<rparr>])
              | Some e \<Rightarrow>
                  (sessionSuccess, Suc sessionFail,
                   sessionResults @ [\<lparr>group = link, ok = False, message = None\<rparr>]))))"

text \<open>
  Workers are asynchronous: each runs until an \<open>await\<close> and goes on when the awaited
  call settles, and between two such moments no other code of the process runs. A worker
  is suspended
  \<^item> at \<open>puppeteer.launch\<close> for the item \<open>i\<close> it claimed (\<open>Launching i\<close>);
  \<^item> at \<open>browser.newPage()\<close> (\<open>OpeningPage i\<close>);
  \<^item> inside the loop over the links, before the check of the flag for the link at
    position \<open>j\<close>, with the counters and the list collected so far (\<open>Linking\<close>);
  \<^item> at \<open>browser.close()\<close> in \<open>finally\<close>, with the error that will leave the
    \<open>try\<close> block if there is one (\<open>Closing\<close>);
  or it has returned (\<open>Exited\<close>) or thrown (\<open>Crashed\<close>).

  The pool is the state the workers share: the cursor \<open>sessionIndex\<close>, the results, the
  job with its flag and its browsers (a browser is known by the index of its item).
  Two fields are for the statements only: each result is kept with the index of the item
  it was pushed for, and \<open>navigated\<close> lists the item and link position of every
  \<open>page.goto\<close> made.
\<close>

datatype jworker =
    Launching nat
  | OpeningPage nat
  | Linking nat nat nat nat "linkResult list"
  | Closing nat "exn option"
  | Exited
  | Crashed exn

record jpool =
  sessionIndex :: nat
  emitted :: "(nat \<times> outcome) list"
  jobOf :: "nat job"
  workers :: "jworker list"
  navigated :: "(nat \<times> nat) list"

text \<open>
  From the head of the \<open>while\<close> loop to the first \<open>await\<close>: a session without a
  profile directory gets its Outcome and the loop continues at once.
\<close>

function claimNext :: "world \<Rightarrow> string \<Rightarrow> string list \<Rightarrow> jpool \<Rightarrow> jpool \<times> jworker" where
  "claimNext w userDir sessionNames p =
     (if sessionIndex p < length sessionNames \<and> \<not> stopRequested (jobOf p) then
        (let i = sessionIndex p;
             sessName = sessionNames ! i;
             sessionPath = pathJoin w userDir (sanitizeName sessName);
             p1 = p\<lparr>sessionIndex := Suc i\<rparr>
         in if \<not> existsSync w sessionPath
            then claimNext w userDir sessionNames
                   (p1\<lparr>emitted := emitted p1 @ [(i, missingOutcome sessName)]\<rparr>)
            else (p1, Launching i))
      else (p, Exited))"
  by pat_completeness auto
termination
  by (relation "measure (\<lambda>(w, userDir, sessionNames, p). length sessionNames - sessionIndex p)")
     auto

declare claimNext.simps [simp del]

definition setWorker :: "nat \<Rightarrow> jworker \<Rightarrow> jpool \<Rightarrow> jpool" where
  "setWorker k st p = p\<lparr>workers := (workers p)[k := st]\<rparr>"

text \<open>Worker \<open>k\<close> goes on from where it is suspended, up to its next suspension.\<close>

definition resume ::
  "world \<Rightarrow> string \<Rightarrow> string list \<Rightarrow> (string \<rightharpoonup> string list) \<Rightarrow> nat \<Rightarrow> jpool \<Rightarrow> jpool" where
  "resume w userDir sessionNames g k p =
     (if k < length (workers p) then
        (case workers p ! k of
           Launching i \<Rightarrow>
             (case page w i Launch of
                Some e \<Rightarrow> setWorker k (Crashed e) p
              | None \<Rightarrow>
                  setWorker k (OpeningPage i)
                    (p\<lparr>jobOf := (jobOf p)\<lparr>browsers := browsers (jobOf p) @ [i]\<rparr>\<rparr>))
         | OpeningPage i \<Rightarrow>
             (case page w i NewPage of
                Some e \<Rightarrow> setWorker k (Closing i (Some e)) p
              | None \<Rightarrow> setWorker k (Linking i 0 0 0 []) p)
         | Linking i j sessionSuccess sessionFail sessionResults \<Rightarrow>
             (let sessName = sessionNames ! i;
                  links = groupsFor g sessName
              in if j < length links \<and> \<not> stopRequested (jobOf p) then
                   (case joinLink (page w i) j (links ! j)
                           (sessionSuccess, sessionFail, sessionResults) of
                      (s', f', rs') \<Rightarrow>
                        setWorker k (Linking i (Suc j) s' f' rs')
                          (p\<lparr>navigated := navigated p @ [(i, j)]\<rparr>))
                 else
                   setWorker k (Closing i None)
                     (p\<lparr>emitted := emitted p @
                          [(i, doneOutcome sessName sessionSuccess sessionFail sessionResults)]\<rparr>))
         | Closing i pending \<Rightarrow>
             (let p1 = p\<lparr>jobOf := (jobOf p)\<lparr>browsers := filter (\<lambda>b. b \<noteq> i) (browsers (jobOf p))\<rparr>\<rparr>
              in case pending of
                   Some e \<Rightarrow> setWorker k (Crashed e) p1
                 | None \<Rightarrow>
                     (case claimNext w userDir sessionNames p1 of
                        (p2, st) \<Rightarrow> setWorker k st p2))
         | Exited \<Rightarrow> p
         | Crashed e \<Rightarrow> p)
      else p)"

text \<open>
  What happens while the entry point waits: a worker's awaited call settles, or
  \<open>stopAll\<close> sets the flag of this job.
\<close>

datatype event = Resume nat | StopRequested

fun poolStep ::
  "world \<Rightarrow> string \<Rightarrow> string list \<Rightarrow> (string \<rightharpoonup> string list) \<Rightarrow> event \<Rightarrow> jpool \<Rightarrow> jpool" where
  "poolStep w userDir sessionNames g (Resume k) p = resume w userDir sessionNames g k p"
| "poolStep w userDir sessionNames g StopRequested p =
     p\<lparr>jobOf := (jobOf p)\<lparr>stopRequested := True\<rparr>\<rparr>"

text \<open>
  \<open>await Promise.all(workers)\<close> settles when a worker has thrown or all have returned.
\<close>

fun crashes :: "jworker list \<Rightarrow> exn list" where
  "crashes [] = []"
| "crashes (Crashed e # sts) = e # crashes sts"
| "crashes (st # sts) = crashes sts"

definition settled :: "jpool \<Rightarrow> bool" where
  "settled p = (crashes (workers p) \<noteq> [] \<or> list_all (\<lambda>st. st = Exited) (workers p))"

fun run ::
  "world \<Rightarrow> string \<Rightarrow> string list \<Rightarrow> (string \<rightharpoonup> string list) \<Rightarrow> event list \<Rightarrow> jpool \<Rightarrow> jpool" where
  "run w userDir sessionNames g [] p = p"
| "run w userDir sessionNames g (ev # evs) p =
     (if settled p then p
      else run w userDir sessionNames g evs (poolStep w userDir sessionNames g ev p))"

text \<open>
  The pool after the workers were spawned and the events of a schedule have happened.
\<close>

definition joinPool ::
  "world \<Rightarrow> event list \<Rightarrow> string \<Rightarrow> string list \<Rightarrow> (string \<rightharpoonup> string list) \<Rightarrow> nat \<Rightarrow> jpool" where
  "joinPool w schedule userDir sessionNames g concurrency =
     (let p0 = \<lparr>sessionIndex = 0, emitted = [],
                jobOf = \<lparr>browsers = [], stopRequested = False\<rparr>, workers = [], navigated = []\<rparr>;
          (p, sts) = spawn concurrency (claimNext w userDir sessionNames) p0
      in run w userDir sessionNames g schedule (p\<lparr>workers := sts\<rparr>))"

text \<open>
  \<open>startJoinGroups\<close> under a schedule: the user directory, then the partition, then
  the workers; the promise it returns is rejected with the first worker's error, resolved
  with the results when all workers returned, and pending before.
\<close>

record joinReturn =
  joinResults :: "outcome list"

definition poolPromise :: "jpool \<Rightarrow> joinReturn promise" where
  "poolPromise p =
     (case crashes (workers p) of
        e # es \<Rightarrow> Rejected e
      | [] \<Rightarrow>
          if list_all (\<lambda>st. st = Exited) (workers p)
          then Resolved \<lparr>joinResults = map snd (emitted p)\<rparr>
          else Pending)"

definition startJoinGroups ::
  "world \<Rightarrow> event list \<Rightarrow> string \<Rightarrow> string list \<Rightarrow> string list \<Rightarrow> nat \<Rightarrow> int
    \<Rightarrow> joinReturn promise" where
  "startJoinGroups w schedule userId sessionNames groupLinks concurrency groupsPerSession =
     (case ensureUserDir w userId of
        Inl e \<Rightarrow> Rejected e
      | Inr userDir \<Rightarrow>
          (case groupsBySession sessionNames groupLinks groupsPerSession of
             Inl e \<Rightarrow> Rejected e
           | Inr g \<Rightarrow> poolPromise (joinPool w schedule userDir sessionNames g concurrency)))"

subsection \<open>Post + Comment: \<open>attemptPostingWithRetries\<close> (lines 826-970)\<close>

text \<open>
  The function polls \<open>job.stopRequested\<close> at many places; the world says at each
  place whether the flag is seen set. The places: the head of a worker's \<open>while\<close>
  loop, the check after an item at the end of the loop's body (Session Creation), and,
  for one session of Post + Comment, before the feed is
  opened, after the wait for the pinned anchors, before and after the navigation to the
  target at position \<open>t\<close>, at the start of attempt \<open>a\<close> for that target, in the
  \<open>catch\<close> of the attempt, and the \<open>k\<close>-th poll inside the attempt.
\<close>

datatype poll =
    LoopHead | AfterItem
  | BeforeFeed | AfterPinnedWait | BeforeTarget nat | AfterTargetGoto nat
  | AttemptStart nat nat | AfterError nat nat | Within nat nat nat

text \<open>
  Inside the \<open>try\<close> of one attempt, what can end the attempt early is a poll that sees
  the flag (\<open>return false\<close>) or an awaited call without \<open>.catch\<close> that rejects; calls
  with \<open>.catch\<close> whose result is not read are left out.
\<close>

datatype act = Poll poll | Do step

datatype attemptEnd = SawStop | Threw exn

fun runActs :: "(step \<Rightarrow> exn option) \<Rightarrow> (poll \<Rightarrow> bool) \<Rightarrow> act list \<Rightarrow> attemptEnd option" where
  "runActs env flag [] = None"
| "runActs env flag (Poll q # acts) = (if flag q then Some SawStop else runActs env flag acts)"
| "runActs env flag (Do s # acts) =
     (case env s of Some e \<Rightarrow> Some (Threw e) | None \<Rightarrow> runActs env flag acts)"

text \<open>
  The file chooser, the caption and the submit button, common to the three branches.
\<close>

definition submitActs :: "nat \<Rightarrow> nat \<Rightarrow> nat \<Rightarrow> act list" where
  "submitActs t a k =
     [Do (ChooseFile t a), Poll (Within t a k), Do (AcceptFile t a), Do (TypeCaption t a),
      Do (WaitSubmit t a), Do (ClickSubmit t a)]"

text \<open>
  The three branches of the second text: the button \<open>Postingan anonim\<close> is found; or
  the button \<open>Anonymous post\<close> is; or neither, and the page \<open>buy_sell_discussion\<close> is
  tried. (The first text, lines 331-453, has the first and the third branch only.)
\<close>

definition attemptActs :: "(step \<Rightarrow> exn option) \<Rightarrow> nat \<Rightarrow> nat \<Rightarrow> act list" where
  "attemptActs env t a =
     (case env (ProbeAnon t a) of
        None \<Rightarrow>
          [Poll (Within t a 1), Poll (Within t a 2), Poll (Within t a 3)] @ submitActs t a 4
      | Some e \<Rightarrow>
          (case env (ProbeAltAnon t a) of
             None \<Rightarrow> [Poll (Within t a 1), Poll (Within t a 2)] @ submitActs t a 3
           | Some e' \<Rightarrow>
               [Poll (Within t a 1), Poll (Within t a 2), Poll (Within t a 3),
                Poll (Within t a 4)] @ submitActs t a 5))"

text \<open>
  \<open>postCommentDirectly\<close> (lines 807-823) returns \<open>true\<close> when all its calls resolve
  and \<open>false\<close> otherwise; they are one step here. The record pushed after the post:
\<close>

definition postedRecord :: "bool \<Rightarrow> outcome" where
  "postedRecord commentOk =
     (if commentOk then AttemptRecord True True ''Postingan dan komentar berhasil''
      else AttemptRecord True False ''Postingan ditangguhkan'')"

text \<open>
  The loop over the attempts, with \<open>n\<close> attempts left and \<open>a\<close> the number of the next
  one. The result is the records pushed to \<open>results\<close> and the value returned.
  \<open>String(err)\<close> of an \<open>Error\<close> is \<open>Error: \<close> and the message.
\<close>

fun attemptsFrom ::
  "(step \<Rightarrow> exn option) \<Rightarrow> (poll \<Rightarrow> bool) \<Rightarrow> nat \<Rightarrow> nat \<Rightarrow> nat \<Rightarrow> outcome list \<times> bool" where
  "attemptsFrom env flag t a 0 = ([], False)"
| "attemptsFrom env flag t a (Suc n) =
     (if flag (AttemptStart t a) then ([], False)
      else
        (case runActs env flag (attemptActs env t a) of
           None \<Rightarrow> ([postedRecord (env (CommentBox t a) = None)], True)
         | Some SawStop \<Rightarrow> ([], False)
         | Some (Threw (Error msg)) \<Rightarrow>
             if flag (AfterError t a) then ([], False)
             else if 0 < n then attemptsFrom env flag t (Suc a) n
             else ([AttemptRecord False False (''Error: '' @ msg)], False)))"

definition MAX_ATTEMPTS :: nat where
  "MAX_ATTEMPTS = 2"

definition attemptPostingWithRetries ::
  "(step \<Rightarrow> exn option) \<Rightarrow> (poll \<Rightarrow> bool) \<Rightarrow> nat \<Rightarrow> outcome list \<times> bool" where
  "attemptPostingWithRetries env flag t = attemptsFrom env flag t 1 MAX_ATTEMPTS"

subsection \<open>Post + Comment: one session (lines 984-1037) and the returned value\<close>

text \<open>
  The loop over the discovered URLs, from the target at position \<open>t\<close> on: two polls,
  then the attempts, then the worker's own record \<open>{session, group, ok}\<close>.
\<close>

fun postTargets ::
  "(step \<Rightarrow> exn option) \<Rightarrow> (poll \<Rightarrow> bool) \<Rightarrow> string \<Rightarrow> nat \<Rightarrow> string list \<Rightarrow> outcome list" where
  "postTargets env flag sessName t [] = []"
| "postTargets env flag sessName t (url # urls) =
     (if flag (BeforeTarget t) then []
      else if flag (AfterTargetGoto t) then []
      else
        (case attemptPostingWithRetries env flag t of
           (records, posted) \<Rightarrow>
             records @ [TargetOutcome sessName url posted]
               @ postTargets env flag sessName (Suc t) urls))"

text \<open>
  The body of the worker's loop for the session at index \<open>i\<close>: the records pushed, the
  error that leaves the worker if one does, and whether the worker's \<open>while\<close> loop is
  left by \<open>break\<close>. \<open>hrefs\<close> are the \<open>href\<close>s of the scanned anchors; the scan
  (\<open>page.$$\<close> and the \<open>page.evaluate\<close> calls, one step here) may reject, which the
  inner \<open>catch\<close> records. \<open>browser.close()\<close> in \<open>finally\<close> has a \<open>.catch\<close>.
\<close>

record postRun =
  postPushed :: "outcome list"
  postThrown :: "exn option"
  postBreak :: bool

definition postItem ::
  "world \<Rightarrow> (poll \<Rightarrow> bool) \<Rightarrow> string list \<Rightarrow> string \<Rightarrow> nat \<Rightarrow> string \<Rightarrow> postRun" where
  "postItem w flag hrefs userDir i sessName =
     (let env = page w i;
          sessionPath = pathJoin w userDir (sanitizeName sessName)
      in if \<not> existsSync w sessionPath then
           \<lparr>postPushed = [SessionFailure sessName ''session tidak ditemukan''],
            postThrown = None, postBreak = False\<rparr>
         else
           (case env Launch of
              Some e \<Rightarrow> \<lparr>postPushed = [], postThrown = Some e, postBreak = False\<rparr>
            | None \<Rightarrow>
               (case env NewPage of
                  Some e \<Rightarrow> \<lparr>postPushed = [], postThrown = Some e, postBreak = False\<rparr>
                | None \<Rightarrow>
                    if flag BeforeFeed then
                      \<lparr>postPushed = [], postThrown = None, postBreak = True\<rparr>
                    else if flag AfterPinnedWait then
                      \<lparr>postPushed = [], postThrown = None, postBreak = True\<rparr>
                    else
                      (case env ScanAnchors of
                         Some e \<Rightarrow>
                           \<lparr>postPushed = [SessionFailure sessName ''Gagal ambil pinned groups''],
                            postThrown = None, postBreak = False\<rparr>
                       | None \<Rightarrow>
                           \<lparr>postPushed = postTargets env flag sessName 0 (discoverUrls hrefs),
                            postThrown = None, postBreak = False\<rparr>))))"

text \<open>
  Lines 1044-1056: what \<open>startPostAndComment\<close> resolves with, from the \<open>results\<close>
  array as the workers left it (\<open>jobId\<close> left out).
\<close>

record postReturn =
  postResults :: "outcome list"
  postSummary :: summary

definition startPostAndComment_return :: "outcome list \<Rightarrow> postReturn" where
  "startPostAndComment_return rs = \<lparr>postResults = rs, postSummary = summarize rs\<rparr>"

subsection \<open>The worker pools of \<open>startPostAndComment\<close> and of the first \<open>startCreateSessions\<close>\<close>

text \<open>
  Both entry points await \<open>Promise.all(workers)\<close> (lines 176-177, 1040-1041). What one
  worker does for the item at an index is fixed by the world: whether the item is done
  before the first \<open>await\<close> (the directory check fails), the records it pushes, in
  order, the error that leaves the worker if one does, and whether the \<open>while\<close> loop
  is left by \<open>break\<close> afterwards.
\<close>

record plan =
  planImmediate :: bool
  planPushes :: "outcome list"
  planError :: "exn option"
  planBreak :: bool

text \<open>
  A worker is busy with the item \<open>i\<close> it claimed, with the records it has still to
  push; or it has returned; or it has thrown. The pool is the cursor, the results array
  and the workers.
\<close>

datatype qworker = Busy nat "outcome list" | Ended | Broken exn

record qpool =
  cursor :: nat
  collected :: "outcome list"
  crew :: "qworker list"

text \<open>
  From the head of the \<open>while\<close> loop to the first \<open>await\<close>, for \<open>n\<close> items:
  \<open>stopAtHead c\<close> is the flag as the loop's condition reads it with the cursor at
  \<open>c\<close>. An item that is done before the first \<open>await\<close> pushes its records, and the
  loop is left by \<open>break\<close> or goes on at once (such an item throws nothing in either
  entry point).
\<close>

function claimItem :: "nat \<Rightarrow> (nat \<Rightarrow> bool) \<Rightarrow> (nat \<Rightarrow> plan) \<Rightarrow> qpool \<Rightarrow> qpool \<times> qworker" where
  "claimItem n stopAtHead plans p =
     (if cursor p < n \<and> \<not> stopAtHead (cursor p) then
        (let i = cursor p;
             p1 = p\<lparr>cursor := Suc i\<rparr>
         in if planImmediate (plans i) then
              (let p2 = p1\<lparr>collected := collected p1 @ planPushes (plans i)\<rparr>
               in if planBreak (plans i) then (p2, Ended)
                  else claimItem n stopAtHead plans p2)
            else (p1, Busy i (planPushes (plans i))))
      else (p, Ended))"
  by pat_completeness auto
termination
  by (relation "measure (\<lambda>(n, stopAtHead, plans, p). n - cursor p)") auto

declare claimItem.simps [simp del]

text \<open>
  Worker \<open>k\<close> goes on: it pushes its next record, or, with none left, ends its item:
  it throws, or leaves the loop, or claims again. Other workers may push in between any
  two records.
\<close>

definition advance ::
  "nat \<Rightarrow> (nat \<Rightarrow> bool) \<Rightarrow> (nat \<Rightarrow> plan) \<Rightarrow> nat \<Rightarrow> qpool \<Rightarrow> qpool" where
  "advance n stopAtHead plans k p =
     (if k < length (crew p) then
        (case crew p ! k of
           Busy i queue \<Rightarrow>
             (case queue of
                r # rest \<Rightarrow> p\<lparr>collected := collected p @ [r], crew := (crew p)[k := Busy i rest]\<rparr>
              | [] \<Rightarrow>
                  (case planError (plans i) of
                     Some e \<Rightarrow> p\<lparr>crew := (crew p)[k := Broken e]\<rparr>
                   | None \<Rightarrow>
                       if planBreak (plans i) then p\<lparr>crew := (crew p)[k := Ended]\<rparr>
                       else
                         (case claimItem n stopAtHead plans p of
                            (p2, st) \<Rightarrow> p2\<lparr>crew := (crew p2)[k := st]\<rparr>)))
         | Ended \<Rightarrow> p
         | Broken e \<Rightarrow> p)
      else p)"

fun thrownBy :: "qworker list \<Rightarrow> exn list" where
  "thrownBy [] = []"
| "thrownBy (Broken e # sts) = e # thrownBy sts"
| "thrownBy (st # sts) = thrownBy sts"

definition allSettled :: "qpool \<Rightarrow> bool" where
  "allSettled p = (thrownBy (crew p) \<noteq> [] \<or> list_all (\<lambda>st. st = Ended) (crew p))"

text \<open>A schedule names the workers in the order in which they go on.\<close>

fun runPool ::
  "nat \<Rightarrow> (nat \<Rightarrow> bool) \<Rightarrow> (nat \<Rightarrow> plan) \<Rightarrow> nat list \<Rightarrow> qpool \<Rightarrow> qpool" where
  "runPool n stopAtHead plans [] p = p"
| "runPool n stopAtHead plans (k # ks) p =
     (if allSettled p then p
      else runPool n stopAtHead plans ks (advance n stopAtHead plans k p))"

definition pool ::
  "nat \<Rightarrow> (nat \<Rightarrow> bool) \<Rightarrow> (nat \<Rightarrow> plan) \<Rightarrow> nat list \<Rightarrow> nat \<Rightarrow> qpool" where
  "pool n stopAtHead plans schedule concurrency =
     (let (p, sts) = spawn concurrency (claimItem n stopAtHead plans)
                       \<lparr>cursor = 0, collected = [], crew = []\<rparr>
      in runPool n stopAtHead plans schedule (p\<lparr>crew := sts\<rparr>))"

text \<open>
  The promise of the entry point: rejected with the first worker's error, resolved with
  the value made from the results array when all workers have returned, pending before.
\<close>

definition settle :: "qpool \<Rightarrow> (outcome list \<Rightarrow> 'r) \<Rightarrow> 'r promise" where
  "settle p build =
     (case thrownBy (crew p) of
        e # es \<Rightarrow> Rejected e
      | [] \<Rightarrow>
          if list_all (\<lambda>st. st = Ended) (crew p) then Resolved (build (collected p))
          else Pending)"

text \<open>
  \<open>startPostAndComment\<close> (lines 973-1057) under a schedule. \<open>flag i\<close> are the polls of
  the session at index \<open>i\<close>, \<open>hrefs i\<close> the anchors scanned for it.
\<close>

definition postPlan ::
  "world \<Rightarrow> (nat \<Rightarrow> poll \<Rightarrow> bool) \<Rightarrow> (nat \<Rightarrow> string list) \<Rightarrow> string \<Rightarrow> string list \<Rightarrow> nat \<Rightarrow> plan" where
  "postPlan w flag hrefs userDir sessionNames i =
     (let sessName = sessionNames ! i;
          r = postItem w (flag i) (hrefs i) userDir i sessName
      in \<lparr>planImmediate = (\<not> existsSync w (pathJoin w userDir (sanitizeName sessName))),
          planPushes = postPushed r, planError = postThrown r, planBreak = postBreak r\<rparr>)"

definition startPostAndComment ::
  "world \<Rightarrow> (nat \<Rightarrow> poll \<Rightarrow> bool) \<Rightarrow> (nat \<Rightarrow> string list) \<Rightarrow> nat list \<Rightarrow> string \<Rightarrow> string list
    \<Rightarrow> nat \<Rightarrow> postReturn promise" where
  "startPostAndComment w flag hrefs schedule userId sessionNames concurrency =
     (case ensureUserDir w userId of
        Inl e \<Rightarrow> Rejected e
      | Inr userDir \<Rightarrow>
          settle (pool (length sessionNames) (\<lambda>c. flag c LoopHead)
                    (postPlan w flag hrefs userDir sessionNames) schedule concurrency)
            startPostAndComment_return)"

text \<open>
  The first text of \<open>startCreateSessions\<close> (lines 102-193) under a schedule. After
  each item the worker checks the flag and leaves the loop when it is set. All workers
  have returned when the promise resolves.
\<close>

definition createPlan_a ::
  "world \<Rightarrow> (nat \<Rightarrow> poll \<Rightarrow> bool) \<Rightarrow> string \<Rightarrow> account list \<Rightarrow> nat \<Rightarrow> plan" where
  "createPlan_a w flag userDir accounts i =
     (let acc = accounts ! i;
          sessionPath = pathJoin w userDir (sanitizeName (nomorAkun acc));
          r = createItem_a w i acc sessionPath
      in \<lparr>planImmediate = (ensureSessionDir w sessionPath \<noteq> None),
          planPushes = pushed r, planError = thrown r, planBreak = flag i AfterItem\<rparr>)"

definition startCreateSessions_a ::
  "world \<Rightarrow> (nat \<Rightarrow> poll \<Rightarrow> bool) \<Rightarrow> nat list \<Rightarrow> string \<Rightarrow> account list \<Rightarrow> nat
    \<Rightarrow> createReturn promise" where
  "startCreateSessions_a w flag schedule userId accounts concurrency =
     (case ensureUserDir w userId of
        Inl e \<Rightarrow> Rejected e
      | Inr userDir \<Rightarrow>
          settle (pool (length accounts) (\<lambda>c. flag c LoopHead)
                    (createPlan_a w flag userDir accounts) schedule concurrency)
            (\<lambda>rs. \<lparr>returnedResults = rs, returnedSummary = summarize rs,
                    workerStates = replicate concurrency Returned\<rparr>))"

subsection \<open>A scenario of Post + Comment\<close>

text \<open>
  The stub with every directory present: one session whose feed shows two pinned groups,
  every browser call resolves, and no poll sees the stop flag.
\<close>

definition openWorld :: world where
  "openWorld = stubWorld\<lparr>existsSync := (\<lambda>p. True)\<rparr>"

definition neverStopped :: "nat \<Rightarrow> poll \<Rightarrow> bool" where
  "neverStopped i q = False"

definition twoGroups :: "nat \<Rightarrow> string list" where
  "twoGroups i = [''https://www.facebook.com/groups/1'', ''https://www.facebook.com/groups/2/'']"

section \<open>Properties\<close>

subsection \<open>Properties of \<open>sanitizeName\<close>\<close>

lemmas char_class_defs = isLower_def isUpper_def isDigit_def less_eq_char_def

lemma canonicalize_lower_is_upper: "isLower a \<Longrightarrow> isUpper (canonicalize a)"
  by (auto simp: char_class_defs canonicalize_def)

lemma upper_has_lower_preimage: "isUpper c \<Longrightarrow> \<exists>a. isLower a \<and> canonicalize a = c"
proof -
  assume u: "isUpper c"
  let ?a = "char_of (of_char c + (32::nat))"
  from u have "isLower ?a"
    by (auto simp: char_class_defs)
  moreover from u have "canonicalize ?a = c"
    by (auto simp: char_class_defs canonicalize_def)
  ultimately show ?thesis by blast
qed

lemma upper_not_lower: "isUpper c \<Longrightarrow> \<not> isLower c"
  by (auto simp: char_class_defs)

lemma classMatches_safeChar [code]: "classMatches c = safeChar c"
proof
  assume "classMatches c"
  then obtain a where a: "inClass a" and eq: "canonicalize a = canonicalize c"
    by (auto simp: classMatches_def)
  show "safeChar c"
  proof (cases "isLower c")
    case True
    then show ?thesis by (simp add: safeChar_def)
  next
    case False
    then have c: "canonicalize a = c" using eq by (simp add: canonicalize_def)
    show ?thesis
    proof (cases "isLower a")
      case True
      then have "isUpper c" using canonicalize_lower_is_upper c by auto
      then show ?thesis by (simp add: safeChar_def)
    next
      case False
      then have "a = c" using c by (simp add: canonicalize_def)
      then show ?thesis using a by (auto simp: inClass_def safeChar_def)
    qed
  qed
next
  assume s: "safeChar c"
  show "classMatches c"
  proof (cases "isUpper c")
    case True
    then obtain a where "isLower a" "canonicalize a = c"
      using upper_has_lower_preimage by blast
    moreover have "canonicalize c = c"
      using True upper_not_lower by (simp add: canonicalize_def)
    ultimately show ?thesis by (auto simp: classMatches_def inClass_def)
  next
    case False
    then have "inClass c" using s by (auto simp: safeChar_def inClass_def)
    then show ?thesis by (auto simp: classMatches_def)
  qed
qed

lemma safeChar_underscore: "safeChar (CHR ''_'')"
  by (simp add: safeChar_def)

lemma sanitizeName_safe: "sanitizeName s = map (\<lambda>c. if safeChar c then c else CHR ''_'') s"
  by (simp add: sanitizeName_def classMatches_safeChar)

lemma sanitizeName_fixes_safe: "list_all safeChar s \<Longrightarrow> sanitizeName s = s"
  by (induction s) (auto simp: sanitizeName_safe)

lemma sanitizeName_all_safe: "list_all safeChar (sanitizeName s)"
  by (induction s) (auto simp: sanitizeName_safe safeChar_underscore)

text \<open>
  C9. For every string \<open>x\<close>, sanitizing twice is sanitizing once; the result matches
  \<open>^[a-zA-Z0-9_.@-]*$\<close>; and it is \<open>x\<close> with exactly the characters outside
  \<open>[a-zA-Z0-9_.@-]\<close> replaced by an underscore, the others kept in place.
\<close>

theorem sanitizeName_idempotent_safe:
  "sanitizeName (sanitizeName x) = sanitizeName x \<and>
   safeName (sanitizeName x) \<and>
   sanitizeName x = map (\<lambda>c. if safeChar c then c else CHR ''_'') x"
proof (intro conjI)
  show "sanitizeName (sanitizeName x) = sanitizeName x"
    by (rule sanitizeName_fixes_safe) (rule sanitizeName_all_safe)
  show "safeName (sanitizeName x)"
    unfolding safeName_def by (rule sanitizeName_all_safe)
  show "sanitizeName x = map (\<lambda>c. if safeChar c then c else CHR ''_'') x"
    by (rule sanitizeName_safe)
qed

subsection \<open>Properties of the URL pattern\<close>

lemma matchSeq_literal:
  "matchSeq (map Chr lit @ rs) s = (\<exists>t. s = lit @ t \<and> matchSeq rs t)"
proof (induction lit arbitrary: s)
  case Nil
  then show ?case by simp
next
  case (Cons a lit)
  then show ?case by (cases s) auto
qed

lemma matchSeq_tail:
  "matchSeq [PlusDigit, Opt c, Eos] s =
     (\<exists>ds sl. s = ds @ sl \<and> ds \<noteq> [] \<and> list_all isDigit ds \<and> (sl = [] \<or> sl = [c]))"
proof (induction s)
  case Nil
  then show ?case by simp
next
  case (Cons x xs)
  show ?case
  proof
    assume m: "matchSeq [PlusDigit, Opt c, Eos] (x # xs)"
    then have d: "isDigit x" by simp
    from m have "matchSeq [PlusDigit, Opt c, Eos] xs \<or> xs = [c] \<or> xs = []"
      by (cases xs; cases "tl xs") auto
    then show "\<exists>ds sl. x # xs = ds @ sl \<and> ds \<noteq> [] \<and> list_all isDigit ds \<and> (sl = [] \<or> sl = [c])"
    proof (elim disjE)
      assume "matchSeq [PlusDigit, Opt c, Eos] xs"
      then obtain ds sl where "xs = ds @ sl" "list_all isDigit ds" "sl = [] \<or> sl = [c]"
        using Cons.IH by blast
      then have "x # xs = (x # ds) @ sl \<and> x # ds \<noteq> [] \<and> list_all isDigit (x # ds) \<and> (sl = [] \<or> sl = [c])"
        using d by simp
      then show ?thesis by blast
    next
      assume "xs = [c]"
      then have "x # xs = [x] @ [c] \<and> [x] \<noteq> [] \<and> list_all isDigit [x]" using d by simp
      then show ?thesis by blast
    next
      assume "xs = []"
      then have "x # xs = [x] @ [] \<and> [x] \<noteq> [] \<and> list_all isDigit [x]" using d by simp
      then show ?thesis by blast
    qed
  next
    assume "\<exists>ds sl. x # xs = ds @ sl \<and> ds \<noteq> [] \<and> list_all isDigit ds \<and> (sl = [] \<or> sl = [c])"
    then obtain ds sl where e: "x # xs = ds @ sl" "ds \<noteq> []" "list_all isDigit ds" "sl = [] \<or> sl = [c]"
      by blast
    then obtain ds' where ds: "ds = x # ds'" by (cases ds) auto
    then have xs: "xs = ds' @ sl" and d: "isDigit x" and dd: "list_all isDigit ds'" using e by auto
    show "matchSeq [PlusDigit, Opt c, Eos] (x # xs)"
    proof (cases "ds' = []")
      case True
      then show ?thesis using xs d e(4) by (cases sl) auto
    next
      case False
      then have "matchSeq [PlusDigit, Opt c, Eos] xs"
        using Cons.IH xs dd e(4) by blast
      then show ?thesis using d by simp
    qed
  qed
qed

lemma list_ex_tails: "list_ex P (tails s) = (\<exists>pre t. s = pre @ t \<and> P t)"
proof (induction s)
  case Nil
  then show ?case by simp
next
  case (Cons x xs)
  show ?case
  proof
    assume "list_ex P (tails (x # xs))"
    then have "P (x # xs) \<or> (\<exists>pre t. xs = pre @ t \<and> P t)" using Cons.IH by simp
    then show "\<exists>pre t. x # xs = pre @ t \<and> P t"
    proof
      assume "P (x # xs)"
      then have "x # xs = [] @ (x # xs) \<and> P (x # xs)" by simp
      then show ?thesis by blast
    next
      assume "\<exists>pre t. xs = pre @ t \<and> P t"
      then obtain pre t where "xs = pre @ t" "P t" by blast
      then have "x # xs = (x # pre) @ t \<and> P t" by simp
      then show ?thesis by blast
    qed
  next
    assume "\<exists>pre t. x # xs = pre @ t \<and> P t"
    then obtain pre t where e: "x # xs = pre @ t" "P t" by blast
    show "list_ex P (tails (x # xs))"
    proof (cases pre)
      case Nil
      with e have "P (x # xs)" by simp
      then show ?thesis by simp
    next
      case (Cons y ys)
      then have "xs = ys @ t" using e by simp
      then show ?thesis using e(2) Cons.IH by auto
    qed
  qed
qed

lemma regexTest_shape:
  "regexTest (map Chr lit @ [PlusDigit, Opt c, Eos]) url =
     (\<exists>pre ds sl. url = pre @ lit @ ds @ sl \<and> ds \<noteq> [] \<and>
        list_all isDigit ds \<and> (sl = [] \<or> sl = [c]))"
proof -
  let ?tl = "\<lambda>ds sl. ds \<noteq> [] \<and> list_all isDigit ds \<and> (sl = [] \<or> sl = [c])"
  have "regexTest (map Chr lit @ [PlusDigit, Opt c, Eos]) url =
        (\<exists>pre t. url = pre @ t \<and> (\<exists>t'. t = lit @ t' \<and> (\<exists>ds sl. t' = ds @ sl \<and> ?tl ds sl)))"
    unfolding regexTest_def list_ex_tails matchSeq_literal matchSeq_tail by (rule refl)
  also have "\<dots> = (\<exists>pre ds sl. url = pre @ lit @ ds @ sl \<and> ?tl ds sl)"
  proof
    assume "\<exists>pre t. url = pre @ t \<and> (\<exists>t'. t = lit @ t' \<and> (\<exists>ds sl. t' = ds @ sl \<and> ?tl ds sl))"
    then obtain pre t t' ds sl where "url = pre @ t" "t = lit @ t'" "t' = ds @ sl" "?tl ds sl"
      by blast
    then have "url = pre @ lit @ ds @ sl \<and> ?tl ds sl" by simp
    then show "\<exists>pre ds sl. url = pre @ lit @ ds @ sl \<and> ?tl ds sl" by blast
  next
    assume "\<exists>pre ds sl. url = pre @ lit @ ds @ sl \<and> ?tl ds sl"
    then obtain pre ds sl where e: "url = pre @ lit @ ds @ sl" "?tl ds sl" by blast
    then have "url = pre @ (lit @ ds @ sl) \<and> (\<exists>t'. lit @ ds @ sl = lit @ t' \<and> (\<exists>ds' sl'. t' = ds' @ sl' \<and> ?tl ds' sl'))"
      by blast
    then show "\<exists>pre t. url = pre @ t \<and> (\<exists>t'. t = lit @ t' \<and> (\<exists>ds sl. t' = ds @ sl \<and> ?tl ds sl))"
      by blast
  qed
  finally show ?thesis by simp
qed

lemma urlsPattern_test_iff:
  "regexTest urlsPattern url =
     (\<exists>pre ds sl. url = pre @ ''facebook.com/groups/'' @ ds @ sl \<and> ds \<noteq> [] \<and>
        list_all isDigit ds \<and> (sl = [] \<or> sl = ''/''))"
  unfolding urlsPattern_def by (rule regexTest_shape)


lemma facebookHost_suffix: "facebookHost h \<Longrightarrow> \<exists>p. h = p @ ''facebook.com''"
proof -
  assume "facebookHost h"
  then consider "h = ''facebook.com''" | "drop (length h - 13) h = ''.facebook.com''"
    by (auto simp: facebookHost_def)
  then show ?thesis
  proof cases
    case 1
    then have "h = [] @ ''facebook.com''" by simp
    then show ?thesis by blast
  next
    case 2
    have "h = take (length h - 13) h @ drop (length h - 13) h" by simp
    then have "h = (take (length h - 13) h @ ''.'') @ ''facebook.com''" using 2 by simp
    then show ?thesis by blast
  qed
qed

lemma stripScheme_Some: "stripScheme url = Some r \<Longrightarrow> \<exists>sch. url = sch @ r"
proof -
  assume "stripScheme url = Some r"
  then have "r = drop 8 url \<or> r = drop 7 url"
    by (auto simp: stripScheme_def split: if_splits)
  then show ?thesis
  proof
    assume "r = drop 8 url"
    then have "url = take 8 url @ r" by simp
    then show ?thesis by blast
  next
    assume "r = drop 7 url"
    then have "url = take 7 url @ r" by simp
    then show ?thesis by blast
  qed
qed

lemma numericGroupRoot_accepted: "numericGroupRoot url \<Longrightarrow> regexTest urlsPattern url"
proof -
  assume n: "numericGroupRoot url"
  then obtain r where r: "stripScheme url = Some r"
    and h: "facebookHost (takeWhile (\<lambda>c. c \<noteq> CHR ''/'') r)"
    and p: "groupsPath (dropWhile (\<lambda>c. c \<noteq> CHR ''/'') r)"
    by (auto simp: numericGroupRoot_def split: option.splits)
  from r obtain sch where u: "url = sch @ r"
    using stripScheme_Some by blast
  from h obtain hp where hp: "takeWhile (\<lambda>c. c \<noteq> CHR ''/'') r = hp @ ''facebook.com''"
    using facebookHost_suffix by blast
  from p obtain ds sl where q: "dropWhile (\<lambda>c. c \<noteq> CHR ''/'') r = ''/groups/'' @ ds @ sl"
      "ds \<noteq> []" "list_all isDigit ds" "sl = [] \<or> sl = ''/''"
    unfolding groupsPath_def matchSeq_literal matchSeq_tail by blast
  have "r = takeWhile (\<lambda>c. c \<noteq> CHR ''/'') r @ dropWhile (\<lambda>c. c \<noteq> CHR ''/'') r" by simp
  then have "r = hp @ ''facebook.com/groups/'' @ ds @ sl" using hp q(1) by simp
  then have "url = (sch @ hp) @ ''facebook.com/groups/'' @ ds @ sl" using u by simp
  then show ?thesis using q(2,3,4) unfolding urlsPattern_test_iff by blast
qed


text \<open>
  C8, as the claim states it, fails: the pattern is anchored at the end of the URL only,
  so a URL of another host that ends in \<open>facebook.com/groups/<digits>\<close> is pushed to
  the target list although it is no group URL of \<open>facebook.com\<close>.
\<close>

theorem discoverUrls_foreign_host_counterexample:
  "''https://notfacebook.com/groups/123'' \<in> set (discoverUrls [''https://notfacebook.com/groups/123''])
   \<and> \<not> numericGroupRoot ''https://notfacebook.com/groups/123''"
  by (simp add: discoverUrls_def urlsPattern_def regexTest_def numericGroupRoot_def
      stripScheme_def facebookHost_def groupsPath_def char_class_defs)

text \<open>
  C8, amended. A scanned anchor URL is added to the target list if and only if it ends
  with \<open>facebook.com/groups/<digits>\<close>, the digits followed by at most one slash and
  nothing else; what stands before \<open>facebook.com\<close> is not constrained. Every scanned
  URL that is exactly a numeric group root is added.
\<close>

theorem discoverUrls_iff_suffix_shape:
  "(url \<in> set (discoverUrls hrefs)) =
     (url \<in> set hrefs \<and>
      (\<exists>pre ds sl. url = pre @ ''facebook.com/groups/'' @ ds @ sl \<and> ds \<noteq> [] \<and>
         list_all isDigit ds \<and> (sl = [] \<or> sl = ''/'')))
   \<and> (url \<in> set hrefs \<and> numericGroupRoot url \<longrightarrow> url \<in> set (discoverUrls hrefs))"
proof (intro conjI impI)
  show "(url \<in> set (discoverUrls hrefs)) =
     (url \<in> set hrefs \<and>
      (\<exists>pre ds sl. url = pre @ ''facebook.com/groups/'' @ ds @ sl \<and> ds \<noteq> [] \<and>
         list_all isDigit ds \<and> (sl = [] \<or> sl = ''/'')))"
    unfolding discoverUrls_def urlsPattern_test_iff [symmetric] by simp
next
  assume "url \<in> set hrefs \<and> numericGroupRoot url"
  then show "url \<in> set (discoverUrls hrefs)"
    using numericGroupRoot_accepted by (simp add: discoverUrls_def)
qed

theorem discoverUrls_iff_suffix_shape_witness:
  "''https://www.facebook.com/groups/123/'' \<in> set [''https://www.facebook.com/groups/123/'', ''https://www.facebook.com/groups/123/about'']
   \<and> numericGroupRoot ''https://www.facebook.com/groups/123/''
   \<and> ''https://www.facebook.com/groups/123/'' \<in> set (discoverUrls [''https://www.facebook.com/groups/123/'', ''https://www.facebook.com/groups/123/about''])"
proof -
  let ?u = "''https://www.facebook.com/groups/123/''"
  let ?hs = "[?u, ''https://www.facebook.com/groups/123/about'']"
  have h: "?u \<in> set ?hs \<and> numericGroupRoot ?u"
    by (simp add: numericGroupRoot_def stripScheme_def facebookHost_def groupsPath_def
        char_class_defs)
  have c: "?u \<in> set (discoverUrls ?hs)"
    using discoverUrls_iff_suffix_shape [of ?u ?hs] h by blast
  from h c show ?thesis by blast
qed

subsection \<open>Properties of \<open>stopAll\<close>\<close>

lemma stopJobs_jobs:
  "fst (stopJobs cr pr J) = map (\<lambda>(jid, j). (jid, j\<lparr>stopRequested := True\<rparr>)) J"
  by (induction J) (auto split: prod.splits)

lemma stopJobs_actions:
  "snd (stopJobs cr pr J) = concat (map (\<lambda>(jid, j). closeBrowsers cr pr (browsers j)) J)"
  by (induction J) (auto split: prod.splits)

lemma closeBrowsers_closes: "b \<in> set bs \<Longrightarrow> Close b \<in> set (closeBrowsers cr pr bs)"
  by (induction bs) (auto split: option.splits)

lemma closeBrowsers_kills:
  "b \<in> set bs \<Longrightarrow> cr b \<Longrightarrow> pr b = Some p \<Longrightarrow> Kill p \<in> set (closeBrowsers cr pr bs)"
  by (induction bs) (auto split: option.splits)

lemma closeBrowsers_kill_only_after_failure:
  "Kill p \<in> set (closeBrowsers cr pr bs) \<Longrightarrow> \<exists>b \<in> set bs. cr b \<and> pr b = Some p"
  by (induction bs) (auto split: option.splits if_splits)

lemma stopAll_fields:
  "stopped (stopAll cr pr J) = fst (stopJobs cr pr J)"
  "actions (stopAll cr pr J) = snd (stopJobs cr pr J)"
  "registry (stopAll cr pr J) = []"
  by (simp_all add: stopAll_def split_beta)

lemma stopAll_closes:
  assumes "b \<in> set (trackedBrowsers J)"
  shows "Close b \<in> set (actions (stopAll cr pr J))"
proof -
  from assms(1) obtain jid j where j: "(jid, j) \<in> set J" "b \<in> set (browsers j)"
    by (auto simp: trackedBrowsers_def)
  then have "Close b \<in> set (closeBrowsers cr pr (browsers j))"
    by (simp add: closeBrowsers_closes)
  with j(1) have "Close b \<in> set (snd (stopJobs cr pr J))"
    unfolding stopJobs_actions by force
  then show ?thesis by (simp add: stopAll_fields)
qed

lemma stopAll_kills:
  assumes "b \<in> set (trackedBrowsers J)" "cr b" "pr b = Some p"
  shows "Kill p \<in> set (actions (stopAll cr pr J))"
proof -
  from assms(1) obtain jid j where j: "(jid, j) \<in> set J" "b \<in> set (browsers j)"
    by (auto simp: trackedBrowsers_def)
  then have "Kill p \<in> set (closeBrowsers cr pr (browsers j))"
    using assms(2,3) by (simp add: closeBrowsers_kills)
  with j(1) have "Kill p \<in> set (snd (stopJobs cr pr J))"
    unfolding stopJobs_actions by force
  then show ?thesis by (simp add: stopAll_fields)
qed

lemma stopAll_stopped:
  "stopped (stopAll cr pr J) = map (\<lambda>(jid, j). (jid, j\<lparr>stopRequested := True\<rparr>)) J"
  by (simp add: stopAll_fields stopJobs_jobs)

text \<open>
  C4. Let every tracked browser have a process (each was made by \<open>puppeteer.launch\<close>).
  Then \<open>stopAll\<close> leaves every registered job, in registry order, with its flag set and
  its other fields as they were; it calls \<open>close\<close> on every tracked browser of every job;
  for every browser whose \<open>close\<close> rejects it sends the kill signal to the browser's
  process; and afterwards the registry holds no job and no tracked browser.
\<close>

theorem stopAll_flags_closes_kills_clears:
  assumes "\<forall>b \<in> set (trackedBrowsers JOBS). process b \<noteq> None"
  shows "stopped (stopAll closeRejects process JOBS)
           = map (\<lambda>(jid, j). (jid, j\<lparr>stopRequested := True\<rparr>)) JOBS
       \<and> (\<forall>(jid, j) \<in> set (stopped (stopAll closeRejects process JOBS)). stopRequested j)
       \<and> (\<forall>b \<in> set (trackedBrowsers JOBS).
            Close b \<in> set (actions (stopAll closeRejects process JOBS)) \<and>
            (closeRejects b \<longrightarrow>
               (\<exists>p. process b = Some p \<and> Kill p \<in> set (actions (stopAll closeRejects process JOBS)))))
       \<and> registry (stopAll closeRejects process JOBS) = []
       \<and> trackedBrowsers (registry (stopAll closeRejects process JOBS)) = []"
proof (intro conjI ballI)
  show "stopped (stopAll closeRejects process JOBS)
           = map (\<lambda>(jid, j). (jid, j\<lparr>stopRequested := True\<rparr>)) JOBS"
    by (rule stopAll_stopped)
next
  fix x assume "x \<in> set (stopped (stopAll closeRejects process JOBS))"
  then show "case x of (jid, j) \<Rightarrow> stopRequested j"
    unfolding stopAll_stopped by auto
next
  fix b assume "b \<in> set (trackedBrowsers JOBS)"
  then show "Close b \<in> set (actions (stopAll closeRejects process JOBS))"
    by (rule stopAll_closes)
next
  fix b assume b: "b \<in> set (trackedBrowsers JOBS)"
  show "closeRejects b \<longrightarrow>
          (\<exists>p. process b = Some p \<and> Kill p \<in> set (actions (stopAll closeRejects process JOBS)))"
  proof
    assume c: "closeRejects b"
    from assms b obtain p where p: "process b = Some p" by auto
    with b c have "Kill p \<in> set (actions (stopAll closeRejects process JOBS))"
      by (simp add: stopAll_kills)
    with p show "\<exists>p. process b = Some p \<and> Kill p \<in> set (actions (stopAll closeRejects process JOBS))"
      by blast
  qed
next
  show "registry (stopAll closeRejects process JOBS) = []"
    by (simp add: stopAll_fields)
  then show "trackedBrowsers (registry (stopAll closeRejects process JOBS)) = []"
    by (simp add: trackedBrowsers_def)
qed

text \<open>
  A registry of two jobs: the first owns browsers 1 and 2, the second browser 3; the
  \<open>close\<close> of browser 2 rejects; the process of browser \<open>b\<close> is \<open>100 + b\<close>.
\<close>

theorem stopAll_flags_closes_kills_clears_witness:
  "(let JOBS = [(''j1'', \<lparr>browsers = [1, 2 :: nat], stopRequested = False\<rparr>),
                (''j2'', \<lparr>browsers = [3], stopRequested = False\<rparr>)];
        r = stopAll (\<lambda>b. b = 2) (\<lambda>b. Some (100 + b)) JOBS
    in stopped r = [(''j1'', \<lparr>browsers = [1, 2], stopRequested = True\<rparr>),
                    (''j2'', \<lparr>browsers = [3], stopRequested = True\<rparr>)]
       \<and> Close 2 \<in> set (actions r) \<and> Kill 102 \<in> set (actions r)
       \<and> registry r = [])"
proof -
  let ?J = "[(''j1'', \<lparr>browsers = [1, 2 :: nat], stopRequested = False\<rparr>),
             (''j2'', \<lparr>browsers = [3], stopRequested = False\<rparr>)]"
  let ?cr = "\<lambda>b::nat. b = 2"
  let ?pr = "\<lambda>b::nat. Some (100 + b)"
  have h: "\<forall>b \<in> set (trackedBrowsers ?J). ?pr b \<noteq> None" by simp
  have t: "(2::nat) \<in> set (trackedBrowsers ?J)" by (simp add: trackedBrowsers_def)
  note th = stopAll_flags_closes_kills_clears [of ?J ?pr ?cr, OF h]
  from th have 1: "stopped (stopAll ?cr ?pr ?J)
      = [(''j1'', \<lparr>browsers = [1, 2], stopRequested = True\<rparr>),
         (''j2'', \<lparr>browsers = [3], stopRequested = True\<rparr>)]" by simp
  from th t have 2: "Close 2 \<in> set (actions (stopAll ?cr ?pr ?J))" by blast
  from th t have "\<exists>p. ?pr 2 = Some p \<and> Kill p \<in> set (actions (stopAll ?cr ?pr ?J))" by blast
  then have 3: "Kill 102 \<in> set (actions (stopAll ?cr ?pr ?J))" by auto
  from th have 4: "registry (stopAll ?cr ?pr ?J) = []" by blast
  from 1 2 3 4 show ?thesis unfolding Let_def by blast
qed

subsection \<open>Properties of the partition\<close>

text \<open>
  The links that \<open>sessionNames[\<lfloor>i/k\<rfloor>]\<close> is the name of, among the links numbered
  from \<open>idx\<close> on: those whose index \<open>i\<close> has \<open>\<lfloor>i/k\<rfloor>\<close> below the number of
  sessions and the name at \<open>\<lfloor>i/k\<rfloor>\<close> equal to \<open>name\<close>, in input order.
\<close>

definition chunkOf :: "string list \<Rightarrow> nat \<Rightarrow> string \<Rightarrow> nat \<Rightarrow> string list \<Rightarrow> string list" where
  "chunkOf names k name idx links =
     map snd (filter (\<lambda>(i, link). i div k < length names \<and> names ! (i div k) = name)
                (List.enumerate idx links))"

lemma floorQuotient_pos: "0 < k \<Longrightarrow> floorQuotient idx (int k) = Finite (int (idx div k))"
  by (simp add: floorQuotient_def zdiv_int)

lemma elementKey_in_range: "n < length names \<Longrightarrow> elementKey names (int n) = names ! n"
  by (simp add: elementKey_def)

lemma chunkOf_Nil: "chunkOf names k name idx [] = []"
  by (simp add: chunkOf_def)

lemma chunkOf_Cons:
  "chunkOf names k name idx (link # rest) =
     (if idx div k < length names \<and> names ! (idx div k) = name then [link] else [])
     @ chunkOf names k name (Suc idx) rest"
  by (simp add: chunkOf_def)

lemma assignLinks_chunks:
  assumes "0 < k" and "dom g = set names"
  shows "\<exists>g'. assignLinks names (int k) idx links g = Inr g' \<and>
           (\<forall>name. g' name =
              (case g name of None \<Rightarrow> None
               | Some ls \<Rightarrow> Some (ls @ chunkOf names k name idx links)))"
  using assms(2)
proof (induction links arbitrary: idx g)
  case Nil
  then show ?case by (auto simp: chunkOf_Nil split: option.splits)
next
  case (Cons link rest)
  show ?case
  proof (cases "idx div k < length names")
    case True
    let ?key = "names ! (idx div k)"
    from True have "?key \<in> set names" by simp
    with Cons.prems obtain ls where ls: "g ?key = Some ls" by blast
    let ?g1 = "g(?key \<mapsto> ls @ [link])"
    have dom1: "dom ?g1 = set names" using Cons.prems ls by auto
    from Cons.IH [OF dom1, of "Suc idx"] obtain g' where
      g': "assignLinks names (int k) (Suc idx) rest ?g1 = Inr g'"
      and sh: "\<forall>name. g' name = (case ?g1 name of None \<Rightarrow> None
                 | Some ls' \<Rightarrow> Some (ls' @ chunkOf names k name (Suc idx) rest))"
      by blast
    have run: "assignLinks names (int k) idx (link # rest) g = Inr g'"
      using True ls g' assms(1) by (simp add: floorQuotient_pos elementKey_in_range)
    have "\<forall>name. g' name = (case g name of None \<Rightarrow> None
             | Some ls' \<Rightarrow> Some (ls' @ chunkOf names k name idx (link # rest)))"
    proof
      fix name
      show "g' name = (case g name of None \<Rightarrow> None
             | Some ls' \<Rightarrow> Some (ls' @ chunkOf names k name idx (link # rest)))"
      proof (cases "name = ?key")
        case True
        then show ?thesis using sh ls \<open>idx div k < length names\<close>
          by (simp add: chunkOf_Cons)
      next
        case False
        then show ?thesis using sh \<open>idx div k < length names\<close>
          by (auto simp: chunkOf_Cons split: option.splits)
      qed
    qed
    with run show ?thesis by blast
  next
    case False
    from Cons.IH [OF Cons.prems, of "Suc idx"] obtain g' where
      g': "assignLinks names (int k) (Suc idx) rest g = Inr g'"
      and sh: "\<forall>name. g' name = (case g name of None \<Rightarrow> None
                 | Some ls' \<Rightarrow> Some (ls' @ chunkOf names k name (Suc idx) rest))"
      by blast
    have run: "assignLinks names (int k) idx (link # rest) g = Inr g'"
      using False g' assms(1) by (simp add: floorQuotient_pos)
    have "\<forall>name. g' name = (case g name of None \<Rightarrow> None
             | Some ls' \<Rightarrow> Some (ls' @ chunkOf names k name idx (link # rest)))"
      using sh False by (auto simp: chunkOf_Cons split: option.splits)
    with run show ?thesis by blast
  qed
qed

lemma fold_empty_lists:
  "fold (\<lambda>n g. g(n \<mapsto> [])) names g0 = (\<lambda>x. if x \<in> set names then Some [] else g0 x)"
  by (induction names arbitrary: g0) auto

lemma groupsBySession_chunks:
  assumes "0 < k"
  shows "\<exists>g. groupsBySession names links (int k) = Inr g \<and>
           (\<forall>name. g name = (if name \<in> set names then Some (chunkOf names k name 0 links) else None))"
proof -
  let ?g0 = "fold (\<lambda>n g. g(n \<mapsto> [])) names Map.empty"
  have g0: "?g0 = (\<lambda>x. if x \<in> set names then Some [] else None)"
    by (simp add: fold_empty_lists)
  have "dom ?g0 = set names" unfolding g0 by (auto split: if_splits)
  from assignLinks_chunks [OF assms this, of 0 links] obtain g' where
    g': "assignLinks names (int k) 0 links ?g0 = Inr g'"
    and sh: "\<forall>name. g' name = (case ?g0 name of None \<Rightarrow> None
               | Some ls \<Rightarrow> Some (ls @ chunkOf names k name 0 links))"
    by blast
  have "\<forall>name. g' name = (if name \<in> set names then Some (chunkOf names k name 0 links) else None)"
    using sh unfolding g0 by simp
  with g' show ?thesis by (auto simp: groupsBySession_def)
qed

lemma enumerate_nth_mem: "i < length links \<Longrightarrow> (idx + i, links ! i) \<in> set (List.enumerate idx links)"
  by (simp add: in_set_enumerate_eq)

text \<open>
  C6. For \<open>groupsPerSession = k \<ge> 1\<close> and \<open>m\<close> session names, the partition is
  computed without an error, and for every name the list stored for it is the links
  whose index \<open>i\<close> has \<open>\<lfloor>i/k\<rfloor> < m\<close> and \<open>sessionNames[\<lfloor>i/k\<rfloor>]\<close> equal to that name,
  in input order; so the link at index \<open>i\<close> is in the list of
  \<open>sessionNames[\<lfloor>i/k\<rfloor>]\<close> when \<open>\<lfloor>i/k\<rfloor> < m\<close>, and a link whose every index has
  \<open>\<lfloor>i/k\<rfloor> \<ge> m\<close> is in no list. \<open>startJoinGroups\<close> computes this partition
  before it spawns a worker, and under every schedule all its workers read that one
  partition.
\<close>

theorem groupsBySession_assigns_by_floor_quotient:
  assumes "0 < k"
  shows "\<exists>g. groupsBySession sessionNames groupLinks (int k) = Inr g \<and>
           (\<forall>name. g name =
              (if name \<in> set sessionNames
               then Some (map snd (filter (\<lambda>(i, link). i div k < length sessionNames \<and>
                                               sessionNames ! (i div k) = name)
                                      (List.enumerate 0 groupLinks)))
               else None)) \<and>
           (\<forall>i < length groupLinks. i div k < length sessionNames \<longrightarrow>
              groupLinks ! i \<in> set (groupsFor g (sessionNames ! (i div k)))) \<and>
           (\<forall>name link. link \<in> set (groupsFor g name) \<longrightarrow>
              (\<exists>i < length groupLinks. groupLinks ! i = link \<and> i div k < length sessionNames \<and>
                 sessionNames ! (i div k) = name)) \<and>
           (\<forall>w schedule userId userDir concurrency.
              ensureUserDir w userId = Inr userDir \<longrightarrow>
              startJoinGroups w schedule userId sessionNames groupLinks concurrency (int k)
                = poolPromise (joinPool w schedule userDir sessionNames g concurrency))"
proof -
  from groupsBySession_chunks [OF assms, of sessionNames groupLinks] obtain g where
    g: "groupsBySession sessionNames groupLinks (int k) = Inr g"
    and sh: "\<forall>name. g name = (if name \<in> set sessionNames
               then Some (chunkOf sessionNames k name 0 groupLinks) else None)"
    by blast
  have a: "\<forall>i < length groupLinks. i div k < length sessionNames \<longrightarrow>
              groupLinks ! i \<in> set (groupsFor g (sessionNames ! (i div k)))"
  proof (intro allI impI)
    fix i assume i: "i < length groupLinks" "i div k < length sessionNames"
    then have "sessionNames ! (i div k) \<in> set sessionNames" by simp
    then have "groupsFor g (sessionNames ! (i div k))
                 = chunkOf sessionNames k (sessionNames ! (i div k)) 0 groupLinks"
      using sh by (simp add: groupsFor_def)
    moreover have "(i, groupLinks ! i) \<in> set (List.enumerate 0 groupLinks)"
      using enumerate_nth_mem [OF i(1), of 0] by simp
    ultimately show "groupLinks ! i \<in> set (groupsFor g (sessionNames ! (i div k)))"
      using i(2) by (force simp: chunkOf_def)
  qed
  have b: "\<forall>name link. link \<in> set (groupsFor g name) \<longrightarrow>
              (\<exists>i < length groupLinks. groupLinks ! i = link \<and> i div k < length sessionNames \<and>
                 sessionNames ! (i div k) = name)"
  proof (intro allI impI)
    fix name link assume l: "link \<in> set (groupsFor g name)"
    then have "name \<in> set sessionNames" using sh by (auto simp: groupsFor_def split: if_splits)
    then have "link \<in> set (chunkOf sessionNames k name 0 groupLinks)"
      using l sh by (simp add: groupsFor_def)
    then obtain i where "(i, link) \<in> set (List.enumerate 0 groupLinks)"
      "i div k < length sessionNames" "sessionNames ! (i div k) = name"
      by (auto simp: chunkOf_def)
    then show "\<exists>i < length groupLinks. groupLinks ! i = link \<and> i div k < length sessionNames \<and>
                 sessionNames ! (i div k) = name"
      by (auto simp: in_set_enumerate_eq)
  qed
  have c: "\<forall>w schedule userId userDir concurrency.
              ensureUserDir w userId = Inr userDir \<longrightarrow>
              startJoinGroups w schedule userId sessionNames groupLinks concurrency (int k)
                = poolPromise (joinPool w schedule userDir sessionNames g concurrency)"
    using g by (simp add: startJoinGroups_def)
  from g sh a b c show ?thesis unfolding chunkOf_def by blast
qed

text \<open>
  The scenario of the specification: sessions \<open>A\<close> and \<open>B\<close>, links \<open>l1\<close>, \<open>l2\<close>, \<open>l3\<close>,
  two groups per session.
\<close>

theorem groupsBySession_assigns_by_floor_quotient_witness:
  "(0::nat) < 2 \<and>
   (\<exists>g. groupsBySession [''A'', ''B''] [''l1'', ''l2'', ''l3''] 2 = Inr g \<and>
      g ''A'' = Some [''l1'', ''l2''] \<and> g ''B'' = Some [''l3''] \<and> g ''C'' = None)"
proof -
  have h: "(0::nat) < 2" by simp
  from groupsBySession_assigns_by_floor_quotient [OF h, of "[''A'', ''B'']" "[''l1'', ''l2'', ''l3'']"]
  obtain g where g: "groupsBySession [''A'', ''B''] [''l1'', ''l2'', ''l3''] (int 2) = Inr g"
    and sh: "\<forall>name. g name =
              (if name \<in> set [''A'', ''B'']
               then Some (map snd (filter (\<lambda>(i, link). i div 2 < length [''A'', ''B''] \<and>
                                               [''A'', ''B''] ! (i div 2) = name)
                                      (List.enumerate 0 [''l1'', ''l2'', ''l3''])))
               else None)"
    by blast
  have "g ''A'' = Some [''l1'', ''l2'']" using sh by simp
  moreover have "g ''B'' = Some [''l3'']" using sh by simp
  moreover have "g ''C'' = None" using sh by simp
  ultimately show ?thesis using g h by auto
qed

subsection \<open>Properties of Session Creation\<close>

lemmas stub_defs = stubWorld_def rejecting_def acct111_def ensureUserDir_def
  ensureSessionDir_def accountOk_def accountFailed_def

lemma workerStart_b_usable:
  assumes "index p < length accounts" "\<not> stopRequested jb"
    "ensureSessionDir w (pathJoin w userDir (sanitizeName (nomorAkun (accounts ! index p)))) = None"
  shows "workerStart_b w userDir accounts jb p = (p\<lparr>index := Suc (index p)\<rparr>, AwaitingLaunch (index p))"
  using assms by (subst workerStart_b.simps) (simp add: Let_def)

lemma workerStart_b_exhausted:
  "\<not> index p < length accounts \<Longrightarrow> workerStart_b w userDir accounts jb p = (p, Returned)"
  by (subst workerStart_b.simps) simp

text \<open>
  Whatever the file system does, the workers push nothing but failures before their
  first \<open>await\<close>.
\<close>

lemma workerStart_b_only_failures:
  "\<forall>r \<in> set (results p). okField r = Some False \<Longrightarrow>
   \<forall>r \<in> set (results (fst (workerStart_b w userDir accounts jb p))). okField r = Some False"
proof (induction w userDir accounts jb p rule: workerStart_b.induct)
  case (1 w userDir accounts jb p)
  show ?case
  proof (cases "index p < length accounts \<and> \<not> stopRequested jb")
    case False
    then have "workerStart_b w userDir accounts jb p = (p, Returned)"
      by (subst workerStart_b.simps) auto
    then show ?thesis using "1.prems" by simp
  next
    case True
    let ?acc = "accounts ! index p"
    let ?path = "pathJoin w userDir (sanitizeName (nomorAkun ?acc))"
    show ?thesis
    proof (cases "ensureSessionDir w ?path")
      case None
      then have "workerStart_b w userDir accounts jb p
                   = (p\<lparr>index := Suc (index p)\<rparr>, AwaitingLaunch (index p))"
        using True by (subst workerStart_b.simps) (simp add: Let_def)
      then show ?thesis using "1.prems" by simp
    next
      case (Some e)
      let ?p2 = "p\<lparr>index := Suc (index p),
                  results := results p @
                    [accountFailed ?acc ''Gagal membuka browser atau koneksi ke Facebook bermasalah.'']\<rparr>"
      have a: "\<forall>r \<in> set (results ?p2). okField r = Some False"
        using "1.prems" by (auto simp: accountFailed_def)
      note ih = "1.IH" [OF True refl refl refl refl Some]
      have eq: "workerStart_b w userDir accounts jb p = workerStart_b w userDir accounts jb ?p2"
        using True Some by (subst workerStart_b.simps) (simp add: Let_def)
      show ?thesis unfolding eq using ih a by simp
    qed
  qed
qed

lemma spawn_invariant:
  assumes "\<And>p. P p \<Longrightarrow> P (fst (start p))" "P p"
  shows "P (fst (spawn n start p))"
  using assms(2)
proof (induction n arbitrary: p)
  case 0
  then show ?case by simp
next
  case (Suc n)
  from Suc.prems have "P (fst (start p))" by (rule assms(1))
  then have "P (fst (spawn n start (fst (start p))))" by (rule Suc.IH)
  then show ?case by (simp add: split_beta)
qed

lemma startCreateSessions_b_never_reports_success:
  assumes "startCreateSessions_b w userId accounts concurrency = Inr ret"
  shows "success (returnedSummary ret) = 0 \<and> (\<forall>r \<in> set (returnedResults ret). okField r = Some False)"
proof -
  from assms obtain userDir where u: "ensureUserDir w userId = Inr userDir"
    by (auto simp: startCreateSessions_b_def split: sum.splits)
  let ?jb = "\<lparr>browsers = ([] :: nat list), stopRequested = False\<rparr>"
  let ?p = "fst (spawn concurrency (workerStart_b w userDir accounts ?jb) \<lparr>index = 0, results = []\<rparr>)"
  have "\<forall>r \<in> set (results ?p). okField r = Some False"
    by (rule spawn_invariant [where P = "\<lambda>p. \<forall>r \<in> set (results p). okField r = Some False"])
       (simp_all add: workerStart_b_only_failures)
  moreover have "returnedResults ret = results ?p" "returnedSummary ret = summarize (results ?p)"
    using assms u by (auto simp: startCreateSessions_b_def split_beta Let_def)
  ultimately show ?thesis by (auto simp: summarize_def)
qed

text \<open>
  C1, at the specification's own scenario: one account, one worker, a stub in which
  every call succeeds. The second text of \<open>startCreateSessions\<close> returns no Outcome
  for the one item, and its worker is still waiting for \<open>puppeteer.launch\<close>; the
  Outcome the worker pushes afterwards is a success.
\<close>

theorem startCreateSessions_b_returns_before_workers_exit:
  "startCreateSessions_b stubWorld ''t1'' [acct111] 1
     = Inr \<lparr>returnedResults = [], returnedSummary = \<lparr>success = 0, failed = 0\<rparr>,
            workerStates = [AwaitingLaunch 0]\<rparr>
   \<and> pushed (createItem_b stubWorld 0 acct111 ''./data/t1/111'')
     = [AccountOutcome ''111'' ''a@x.com'' True (Some ''./data/t1/111'')
          (Some ''Sesi sudah ada dan valid'')]"
proof
  have "workerStart_b stubWorld ''./data/t1'' [acct111] \<lparr>browsers = ([] :: nat list), stopRequested = False\<rparr>
          \<lparr>index = 0, results = []\<rparr>
        = (\<lparr>index = Suc 0, results = []\<rparr>, AwaitingLaunch 0)"
    by (subst workerStart_b.simps) (simp add: stub_defs Let_def)
  then show "startCreateSessions_b stubWorld ''t1'' [acct111] 1
     = Inr \<lparr>returnedResults = [], returnedSummary = \<lparr>success = 0, failed = 0\<rparr>,
            workerStates = [AwaitingLaunch 0]\<rparr>"
    by (simp add: startCreateSessions_b_def stub_defs summarize_def)
next
  show "pushed (createItem_b stubWorld 0 acct111 ''./data/t1/111'')
     = [AccountOutcome ''111'' ''a@x.com'' True (Some ''./data/t1/111'')
          (Some ''Sesi sudah ada dan valid'')]"
    by (simp add: createItem_b_def loginFlow_b_def stub_defs)
qed

text \<open>
  What the second text does guarantee for one item: when \<open>browser.close()\<close> resolves,
  no error leaves the body, exactly one Outcome is pushed and no launched browser is left
  open.
\<close>

lemma createItem_b_contained:
  assumes "page w i CloseBrowser = None"
  shows "thrown (createItem_b w i acc sessionPath) = None \<and>
         length (pushed (createItem_b w i acc sessionPath)) = 1 \<and>
         \<not> leftOpen w i (createItem_b w i acc sessionPath)"
  using assms
  by (auto simp: createItem_b_def leftOpen_def Let_def split: option.splits prod.splits)

text \<open>
  C3, at two failing inputs. In the first text, an item whose \<open>browser.newPage()\<close>
  rejects gets its Failed Outcome, but the launched browser is never closed and stays in
  \<open>job.browsers\<close>. In the second text, an item whose \<open>browser.close()\<close> rejects throws
  the error out of the worker's body.
\<close>

theorem createItem_exception_paths:
  "createItem_a (rejecting NewPage (Error ''Target closed'')) 0 acct111 ''./data/t1/111''
     = \<lparr>trace = [Launch, NewPage],
        pushed = [AccountOutcome ''111'' ''a@x.com'' False None (Some ''Gagal login atau selector berubah'')],
        thrown = None, tracked = True\<rparr>
   \<and> leftOpen (rejecting NewPage (Error ''Target closed'')) 0
       (createItem_a (rejecting NewPage (Error ''Target closed'')) 0 acct111 ''./data/t1/111'')
   \<and> thrown (createItem_b (rejecting CloseBrowser (Error ''Protocol error'')) 0 acct111 ''./data/t1/111'')
     = Some (Error ''Protocol error'')"
  by (simp add: createItem_a_def createItem_b_def loginFlow_b_def leftOpen_def stub_defs)

lemma runSteps_cong:
  "(\<And>s. s \<in> set ss \<Longrightarrow> env s = env' s) \<Longrightarrow> runSteps env ss = runSteps env' ss"
  by (induction ss) (auto split: option.splits)

lemma createItem_a_ignores_navigation:
  "createItem_a (w\<lparr>page := (page w)(i := (page w i)(GotoHome := x))\<rparr>) i acc sessionPath
     = createItem_a w i acc sessionPath"
proof -
  have r: "runSteps ((page w i)(GotoHome := x)) [WaitLoginForm, TypeEmail, TypePass, PressEnter]
             = runSteps (page w i) [WaitLoginForm, TypeEmail, TypePass, PressEnter]"
    by (rule runSteps_cong) auto
  show ?thesis
    unfolding createItem_a_def ensureSessionDir_def Let_def
    by (simp add: r del: runSteps.simps cong: option.case_cong)
qed

text \<open>
  C5, as the claim states it, fails in the text that has the authenticated-marker probe:
  when the navigation to the home page rejects, the probe is not run and a Failed Outcome
  is recorded.
\<close>

theorem createItem_b_navigation_failure_counterexample:
  "pushed (createItem_b (rejecting GotoHome (Error ''net::ERR_TIMED_OUT'')) 0 acct111 ''./data/t1/111'')
     = [AccountOutcome ''111'' ''a@x.com'' False None
          (Some ''Gagal membuka browser atau koneksi ke Facebook bermasalah.'')]
   \<and> ProbeMarker \<notin> set (trace (createItem_b (rejecting GotoHome (Error ''net::ERR_TIMED_OUT'')) 0
                                  acct111 ''./data/t1/111''))"
  by (simp add: createItem_b_def loginFlow_b_def stub_defs)

text \<open>
  C5, amended. Let the session directory be usable and the browser and its page open, and
  let the navigation to the home page reject. In the first text of \<open>startCreateSessions\<close>
  the failure is tolerated: the item runs as if the navigation had resolved, and goes on
  to wait for the login form (that text has no authenticated-marker probe). In the second
  text the failure is not tolerated: the probe is not run, exactly one Failed Outcome with
  the message of the outer handler is recorded, and the browser is closed.
\<close>

theorem navigation_failure_tolerated_in_first_text_only:
  assumes "ensureSessionDir w sessionPath = None"
    and "page w i Launch = None" and "page w i NewPage = None"
    and "page w i GotoHome = Some e"
  shows "createItem_a w i acc sessionPath
           = createItem_a (w\<lparr>page := (page w)(i := (page w i)(GotoHome := None))\<rparr>) i acc sessionPath
       \<and> WaitLoginForm \<in> set (trace (createItem_a w i acc sessionPath))
       \<and> createItem_b w i acc sessionPath
           = \<lparr>trace = [Launch, NewPage, GotoHome, CloseBrowser],
              pushed = [accountFailed acc ''Gagal membuka browser atau koneksi ke Facebook bermasalah.''],
              thrown = page w i CloseBrowser, tracked = False\<rparr>"
proof (intro conjI)
  show "createItem_a w i acc sessionPath
           = createItem_a (w\<lparr>page := (page w)(i := (page w i)(GotoHome := None))\<rparr>) i acc sessionPath"
    by (rule createItem_a_ignores_navigation [symmetric])
  show "WaitLoginForm \<in> set (trace (createItem_a w i acc sessionPath))"
    using assms
    by (auto simp: createItem_a_def Let_def split: option.splits prod.splits)
  show "createItem_b w i acc sessionPath
           = \<lparr>trace = [Launch, NewPage, GotoHome, CloseBrowser],
              pushed = [accountFailed acc ''Gagal membuka browser atau koneksi ke Facebook bermasalah.''],
              thrown = page w i CloseBrowser, tracked = False\<rparr>"
    using assms by (simp add: createItem_b_def Let_def)
qed

theorem navigation_failure_tolerated_in_first_text_only_witness:
  "ensureSessionDir (rejecting GotoHome (Error ''net::ERR_TIMED_OUT'')) ''./data/t1/111'' = None
   \<and> page (rejecting GotoHome (Error ''net::ERR_TIMED_OUT'')) 0 GotoHome = Some (Error ''net::ERR_TIMED_OUT'')
   \<and> pushed (createItem_a (rejecting GotoHome (Error ''net::ERR_TIMED_OUT'')) 0 acct111 ''./data/t1/111'')
     = [AccountOutcome ''111'' ''a@x.com'' True (Some ''./data/t1/111'') None]
   \<and> createItem_b (rejecting GotoHome (Error ''net::ERR_TIMED_OUT'')) 0 acct111 ''./data/t1/111''
     = \<lparr>trace = [Launch, NewPage, GotoHome, CloseBrowser],
        pushed = [AccountOutcome ''111'' ''a@x.com'' False None
                    (Some ''Gagal membuka browser atau koneksi ke Facebook bermasalah.'')],
        thrown = None, tracked = False\<rparr>"
proof -
  let ?w = "rejecting GotoHome (Error ''net::ERR_TIMED_OUT'')"
  have h1: "ensureSessionDir ?w ''./data/t1/111'' = None" by (simp add: stub_defs)
  have h2: "page ?w 0 Launch = None" by (simp add: stub_defs)
  have h3: "page ?w 0 NewPage = None" by (simp add: stub_defs)
  have h4: "page ?w 0 GotoHome = Some (Error ''net::ERR_TIMED_OUT'')" by (simp add: stub_defs)
  note th = navigation_failure_tolerated_in_first_text_only [OF h1 h2 h3 h4, of acct111]
  have a: "pushed (createItem_a ?w 0 acct111 ''./data/t1/111'')
     = [AccountOutcome ''111'' ''a@x.com'' True (Some ''./data/t1/111'') None]"
    by (simp add: createItem_a_def stub_defs)
  have c: "page ?w 0 CloseBrowser = None" by (simp add: stub_defs)
  from th have "createItem_b ?w 0 acct111 ''./data/t1/111''
     = \<lparr>trace = [Launch, NewPage, GotoHome, CloseBrowser],
        pushed = [accountFailed acct111 ''Gagal membuka browser atau koneksi ke Facebook bermasalah.''],
        thrown = page ?w 0 CloseBrowser, tracked = False\<rparr>" by blast
  then have b: "createItem_b ?w 0 acct111 ''./data/t1/111''
     = \<lparr>trace = [Launch, NewPage, GotoHome, CloseBrowser],
        pushed = [AccountOutcome ''111'' ''a@x.com'' False None
                    (Some ''Gagal membuka browser atau koneksi ke Facebook bermasalah.'')],
        thrown = None, tracked = False\<rparr>"
    unfolding c by (simp add: accountFailed_def acct111_def)
  from h1 h4 a b show ?thesis by blast
qed

subsection \<open>Properties of the Group Join pool\<close>

text \<open>
  The invariant of the pool. \<open>dirExists\<close> says that the profile directory of the
  session at an index exists; \<open>countsOf\<close> that two counters are the numbers of joined
  and not joined entries of a list. Every result was pushed for a claimed index and is,
  by the directory of its session, the finished Outcome with counters that fit its list
  or the missing-directory Outcome; a claimed index without a directory has exactly its
  one Outcome; navigations and tracked browsers belong to sessions with a directory;
  every suspended worker works on a claimed session with a directory, with counters that
  fit its list; and a worker has only returned when the flag was set or the cursor had
  reached the end.
\<close>

definition dirExists :: "world \<Rightarrow> string \<Rightarrow> string list \<Rightarrow> nat \<Rightarrow> bool" where
  "dirExists w userDir names i = existsSync w (pathJoin w userDir (sanitizeName (names ! i)))"

definition countsOf :: "nat \<Rightarrow> nat \<Rightarrow> linkResult list \<Rightarrow> bool" where
  "countsOf s f rs = (s = length (filter ok rs) \<and> f = length (filter (\<lambda>r. \<not> ok r) rs))"

definition emissionOk :: "world \<Rightarrow> string \<Rightarrow> string list \<Rightarrow> nat \<times> outcome \<Rightarrow> bool" where
  "emissionOk w userDir names x =
     (if dirExists w userDir names (fst x)
      then (\<exists>s f rs. snd x = doneOutcome (names ! fst x) s f rs \<and> countsOf s f rs)
      else snd x = missingOutcome (names ! fst x))"

definition coreInv :: "world \<Rightarrow> string \<Rightarrow> string list \<Rightarrow> jpool \<Rightarrow> bool" where
  "coreInv w userDir names p =
     (sessionIndex p \<le> length names \<and>
      (\<forall>x \<in> set (emitted p). fst x < sessionIndex p \<and> emissionOk w userDir names x) \<and>
      (\<forall>i < sessionIndex p. \<not> dirExists w userDir names i \<longrightarrow>
         filter (\<lambda>x. fst x = i) (emitted p) = [(i, missingOutcome (names ! i))]) \<and>
      (\<forall>x \<in> set (navigated p). dirExists w userDir names (fst x)) \<and>
      (\<forall>b \<in> set (browsers (jobOf p)). dirExists w userDir names b))"

fun workerInv :: "world \<Rightarrow> string \<Rightarrow> string list \<Rightarrow> nat \<Rightarrow> jworker \<Rightarrow> bool" where
  "workerInv w userDir names c (Launching i) = (i < c \<and> dirExists w userDir names i)"
| "workerInv w userDir names c (OpeningPage i) = (i < c \<and> dirExists w userDir names i)"
| "workerInv w userDir names c (Linking i j s f rs) =
     (i < c \<and> dirExists w userDir names i \<and> countsOf s f rs)"
| "workerInv w userDir names c (Closing i e) = (i < c \<and> dirExists w userDir names i)"
| "workerInv w userDir names c Exited = True"
| "workerInv w userDir names c (Crashed e) = True"

definition exitInv :: "string list \<Rightarrow> jpool \<Rightarrow> bool" where
  "exitInv names p =
     (Exited \<in> set (workers p) \<longrightarrow> stopRequested (jobOf p) \<or> length names \<le> sessionIndex p)"

definition poolInv :: "world \<Rightarrow> string \<Rightarrow> string list \<Rightarrow> jpool \<Rightarrow> bool" where
  "poolInv w userDir names p =
     (coreInv w userDir names p \<and>
      (\<forall>st \<in> set (workers p). workerInv w userDir names (sessionIndex p) st) \<and>
      exitInv names p)"

lemma workerInv_mono:
  "workerInv w userDir names c st \<Longrightarrow> c \<le> c' \<Longrightarrow> workerInv w userDir names c' st"
  by (cases st) auto

lemma coreInv_missing:
  assumes "coreInv w userDir names p" "sessionIndex p < length names"
    "\<not> dirExists w userDir names (sessionIndex p)"
  shows "coreInv w userDir names
           (p\<lparr>sessionIndex := Suc (sessionIndex p),
              emitted := emitted p @ [(sessionIndex p, missingOutcome (names ! sessionIndex p))]\<rparr>)"
proof -
  let ?c = "sessionIndex p"
  have old: "\<forall>x \<in> set (emitted p). fst x < ?c \<and> emissionOk w userDir names x"
    using assms(1) by (simp add: coreInv_def)
  then have none: "filter (\<lambda>x. fst x = ?c) (emitted p) = []"
    by (auto simp: filter_empty_conv)
  have third: "\<forall>i < ?c. \<not> dirExists w userDir names i \<longrightarrow>
         filter (\<lambda>x. fst x = i) (emitted p) = [(i, missingOutcome (names ! i))]"
    using assms(1) by (simp add: coreInv_def)
  have new: "emissionOk w userDir names (?c, missingOutcome (names ! ?c))"
    using assms(3) by (simp add: emissionOk_def)
  have "\<forall>i < Suc ?c. \<not> dirExists w userDir names i \<longrightarrow>
         filter (\<lambda>x. fst x = i) (emitted p @ [(?c, missingOutcome (names ! ?c))])
           = [(i, missingOutcome (names ! i))]"
  proof (intro allI impI)
    fix i assume i: "i < Suc ?c" "\<not> dirExists w userDir names i"
    show "filter (\<lambda>x. fst x = i) (emitted p @ [(?c, missingOutcome (names ! ?c))])
           = [(i, missingOutcome (names ! i))]"
    proof (cases "i = ?c")
      case True
      then show ?thesis using none by simp
    next
      case False
      then have "i < ?c" using i(1) by simp
      then show ?thesis using third i(2) False by simp
    qed
  qed
  moreover have "\<forall>x \<in> set (emitted p @ [(?c, missingOutcome (names ! ?c))]).
                   fst x < Suc ?c \<and> emissionOk w userDir names x"
    using old new by auto
  ultimately show ?thesis using assms(1,2) by (simp add: coreInv_def)
qed

lemma coreInv_advance:
  assumes "coreInv w userDir names p" "sessionIndex p < length names"
    "dirExists w userDir names (sessionIndex p)"
  shows "coreInv w userDir names (p\<lparr>sessionIndex := Suc (sessionIndex p)\<rparr>)"
proof -
  have "\<forall>i < Suc (sessionIndex p). \<not> dirExists w userDir names i \<longrightarrow>
         filter (\<lambda>x. fst x = i) (emitted p) = [(i, missingOutcome (names ! i))]"
  proof (intro allI impI)
    fix i assume i: "i < Suc (sessionIndex p)" "\<not> dirExists w userDir names i"
    then have "i \<noteq> sessionIndex p" using assms(3) by auto
    then have "i < sessionIndex p" using i(1) by simp
    then show "filter (\<lambda>x. fst x = i) (emitted p) = [(i, missingOutcome (names ! i))]"
      using assms(1) i(2) by (simp add: coreInv_def)
  qed
  moreover have "\<forall>x \<in> set (emitted p). fst x < Suc (sessionIndex p) \<and> emissionOk w userDir names x"
    using assms(1) by (auto simp: coreInv_def)
  ultimately show ?thesis using assms(1,2) by (simp add: coreInv_def)
qed

definition claimNextPost :: "world \<Rightarrow> string \<Rightarrow> string list \<Rightarrow> jpool \<Rightarrow> jpool \<times> jworker \<Rightarrow> bool" where
  "claimNextPost w userDir names p r =
     (coreInv w userDir names (fst r) \<and>
      workerInv w userDir names (sessionIndex (fst r)) (snd r) \<and>
      sessionIndex p \<le> sessionIndex (fst r) \<and>
      jobOf (fst r) = jobOf p \<and> workers (fst r) = workers p \<and> navigated (fst r) = navigated p \<and>
      (snd r = Exited \<longrightarrow> stopRequested (jobOf p) \<or> length names \<le> sessionIndex (fst r)))"

lemma claimNext_post:
  "coreInv w userDir names p \<Longrightarrow> claimNextPost w userDir names p (claimNext w userDir names p)"
proof (induction w userDir names p rule: claimNext.induct)
  case (1 w userDir names p)
  show ?case
  proof (cases "sessionIndex p < length names \<and> \<not> stopRequested (jobOf p)")
    case False
    then have "claimNext w userDir names p = (p, Exited)"
      by (subst claimNext.simps) auto
    then show ?thesis using "1.prems" False by (auto simp: claimNextPost_def)
  next
    case True
    let ?i = "sessionIndex p"
    show ?thesis
    proof (cases "dirExists w userDir names ?i")
      case ex: True
      then have "claimNext w userDir names p = (p\<lparr>sessionIndex := Suc ?i\<rparr>, Launching ?i)"
        using True by (subst claimNext.simps) (simp add: Let_def dirExists_def)
      moreover have "coreInv w userDir names (p\<lparr>sessionIndex := Suc ?i\<rparr>)"
        using coreInv_advance "1.prems" True ex by simp
      ultimately show ?thesis using ex by (simp add: claimNextPost_def)
    next
      case nex: False
      let ?p2 = "p\<lparr>sessionIndex := Suc ?i,
                  emitted := emitted p @ [(?i, missingOutcome (names ! ?i))]\<rparr>"
      have eq: "claimNext w userDir names p = claimNext w userDir names ?p2"
        using True nex by (subst claimNext.simps) (simp add: Let_def dirExists_def)
      have c2: "coreInv w userDir names ?p2"
        using coreInv_missing "1.prems" True nex by simp
      have "\<not> existsSync w (pathJoin w userDir (sanitizeName (names ! ?i)))"
        using nex by (simp add: dirExists_def)
      from "1.IH" [OF True refl refl refl refl this] c2
      have "claimNextPost w userDir names ?p2 (claimNext w userDir names ?p2)" by simp
      then show ?thesis unfolding eq by (simp add: claimNextPost_def)
    qed
  qed
qed


lemma coreInv_setWorker [simp]:
  "coreInv w userDir names (setWorker k st p) = coreInv w userDir names p"
  by (simp add: coreInv_def setWorker_def)

lemma poolInv_setWorker:
  assumes "poolInv w userDir names p" "workerInv w userDir names (sessionIndex p) st"
    "st \<noteq> Exited"
  shows "poolInv w userDir names (setWorker k st p)"
proof -
  have sub: "set ((workers p)[k := st]) \<subseteq> insert st (set (workers p))"
    by (rule set_update_subset_insert)
  have "\<forall>x \<in> set ((workers p)[k := st]). workerInv w userDir names (sessionIndex p) x"
    using sub assms(1,2) by (auto simp: poolInv_def)
  moreover have "Exited \<in> set ((workers p)[k := st]) \<longrightarrow> Exited \<in> set (workers p)"
    using sub assms(3) by auto
  ultimately show ?thesis using assms(1)
    by (simp add: poolInv_def setWorker_def exitInv_def coreInv_def)
qed

lemma joinLink_counts:
  "countsOf s f rs \<Longrightarrow> joinLink env j link (s, f, rs) = (s', f', rs') \<Longrightarrow> countsOf s' f' rs'"
  by (auto simp: joinLink_def countsOf_def split: option.splits exn.splits)

lemma poolInv_core: "poolInv w userDir names p \<Longrightarrow> coreInv w userDir names p"
  by (simp add: poolInv_def)

lemma poolInv_worker:
  "poolInv w userDir names p \<Longrightarrow> k < length (workers p) \<Longrightarrow>
   workerInv w userDir names (sessionIndex p) (workers p ! k)"
  by (simp add: poolInv_def)

lemma poolInv_frame:
  assumes "poolInv w userDir names p" "coreInv w userDir names p'"
    "sessionIndex p' = sessionIndex p" "workers p' = workers p"
    "stopRequested (jobOf p) \<longrightarrow> stopRequested (jobOf p')"
  shows "poolInv w userDir names p'"
  using assms by (auto simp: poolInv_def exitInv_def)

lemma resume_Launching:
  assumes inv: "poolInv w userDir names p" and k: "k < length (workers p)"
    and st: "workers p ! k = Launching i"
  shows "poolInv w userDir names (resume w userDir names g k p)"
proof -
  from poolInv_worker [OF inv k] st have wi: "i < sessionIndex p" "dirExists w userDir names i"
    by auto
  show ?thesis
  proof (cases "page w i Launch")
    case (Some e)
    then have "resume w userDir names g k p = setWorker k (Crashed e) p"
      using k st by (simp add: resume_def)
    then show ?thesis using inv by (simp add: poolInv_setWorker)
  next
    case None
    let ?p1 = "p\<lparr>jobOf := (jobOf p)\<lparr>browsers := browsers (jobOf p) @ [i]\<rparr>\<rparr>"
    have r: "resume w userDir names g k p = setWorker k (OpeningPage i) ?p1"
      using k st None by (simp add: resume_def)
    have "coreInv w userDir names ?p1"
      using poolInv_core [OF inv] wi by (auto simp: coreInv_def)
    then have "poolInv w userDir names ?p1"
      by (auto intro: poolInv_frame [OF inv])
    then show ?thesis unfolding r using wi by (simp add: poolInv_setWorker)
  qed
qed

lemma resume_OpeningPage:
  assumes inv: "poolInv w userDir names p" and k: "k < length (workers p)"
    and st: "workers p ! k = OpeningPage i"
  shows "poolInv w userDir names (resume w userDir names g k p)"
proof -
  from poolInv_worker [OF inv k] st have wi: "i < sessionIndex p" "dirExists w userDir names i"
    by auto
  show ?thesis
  proof (cases "page w i NewPage")
    case (Some e)
    then have "resume w userDir names g k p = setWorker k (Closing i (Some e)) p"
      using k st by (simp add: resume_def)
    then show ?thesis using inv wi by (simp add: poolInv_setWorker)
  next
    case None
    then have "resume w userDir names g k p = setWorker k (Linking i 0 0 0 []) p"
      using k st by (simp add: resume_def)
    then show ?thesis using inv wi by (simp add: poolInv_setWorker countsOf_def)
  qed
qed

lemma resume_Linking:
  assumes inv: "poolInv w userDir names p" and k: "k < length (workers p)"
    and st: "workers p ! k = Linking i j s f rs"
  shows "poolInv w userDir names (resume w userDir names g k p)"
proof -
  from poolInv_worker [OF inv k] st
  have wi: "i < sessionIndex p" "dirExists w userDir names i" "countsOf s f rs"
    by auto
  let ?links = "groupsFor g (names ! i)"
  show ?thesis
  proof (cases "j < length ?links \<and> \<not> stopRequested (jobOf p)")
    case True
    obtain s' f' rs' where jl: "joinLink (page w i) j (?links ! j) (s, f, rs) = (s', f', rs')"
      by (cases "joinLink (page w i) j (?links ! j) (s, f, rs)") auto
    let ?p1 = "p\<lparr>navigated := navigated p @ [(i, j)]\<rparr>"
    have r: "resume w userDir names g k p = setWorker k (Linking i (Suc j) s' f' rs') ?p1"
      using k st True jl by (simp add: resume_def Let_def)
    have "coreInv w userDir names ?p1"
      using poolInv_core [OF inv] wi by (auto simp: coreInv_def)
    then have "poolInv w userDir names ?p1"
      by (auto intro: poolInv_frame [OF inv])
    moreover have "countsOf s' f' rs'" using joinLink_counts [OF wi(3) jl] .
    ultimately show ?thesis unfolding r using wi by (simp add: poolInv_setWorker)
  next
    case False
    let ?p1 = "p\<lparr>emitted := emitted p @ [(i, doneOutcome (names ! i) s f rs)]\<rparr>"
    have r: "resume w userDir names g k p = setWorker k (Closing i None) ?p1"
      using k st False by (auto simp: resume_def Let_def)
    have c: "coreInv w userDir names p" using poolInv_core [OF inv] .
    have new: "emissionOk w userDir names (i, doneOutcome (names ! i) s f rs)"
      using wi by (auto simp: emissionOk_def)
    have "\<forall>i' < sessionIndex p. \<not> dirExists w userDir names i' \<longrightarrow>
            filter (\<lambda>x. fst x = i') (emitted ?p1) = [(i', missingOutcome (names ! i'))]"
    proof (intro allI impI)
      fix i' assume i': "i' < sessionIndex p" "\<not> dirExists w userDir names i'"
      then have "i \<noteq> i'" using wi(2) by auto
      then show "filter (\<lambda>x. fst x = i') (emitted ?p1) = [(i', missingOutcome (names ! i'))]"
        using c i' by (simp add: coreInv_def)
    qed
    then have "coreInv w userDir names ?p1"
      using c new wi(1) by (simp add: coreInv_def)
    then have "poolInv w userDir names ?p1"
      by (auto intro: poolInv_frame [OF inv])
    then show ?thesis unfolding r using wi by (simp add: poolInv_setWorker)
  qed
qed

lemma resume_Closing:
  assumes inv: "poolInv w userDir names p" and k: "k < length (workers p)"
    and st: "workers p ! k = Closing i pending"
  shows "poolInv w userDir names (resume w userDir names g k p)"
proof -
  let ?p1 = "p\<lparr>jobOf := (jobOf p)\<lparr>browsers := filter (\<lambda>b. b \<noteq> i) (browsers (jobOf p))\<rparr>\<rparr>"
  have c1: "coreInv w userDir names ?p1"
    using poolInv_core [OF inv] by (auto simp: coreInv_def)
  then have inv1: "poolInv w userDir names ?p1"
    by (auto intro: poolInv_frame [OF inv])
  show ?thesis
  proof (cases pending)
    case (Some e)
    then have "resume w userDir names g k p = setWorker k (Crashed e) ?p1"
      using k st by (simp add: resume_def Let_def)
    then show ?thesis using inv1 by (simp add: poolInv_setWorker)
  next
    case None
    obtain p2 st' where cl: "claimNext w userDir names ?p1 = (p2, st')"
      by (cases "claimNext w userDir names ?p1") auto
    have r: "resume w userDir names g k p = setWorker k st' p2"
      using k st None cl by (simp add: resume_def Let_def)
    from claimNext_post [OF c1] cl
    have post: "coreInv w userDir names p2" "workerInv w userDir names (sessionIndex p2) st'"
      "sessionIndex p \<le> sessionIndex p2" "jobOf p2 = jobOf ?p1" "workers p2 = workers p"
      "st' = Exited \<longrightarrow> stopRequested (jobOf ?p1) \<or> length names \<le> sessionIndex p2"
      by (auto simp: claimNextPost_def)
    have sub: "set ((workers p)[k := st']) \<subseteq> insert st' (set (workers p))"
      by (rule set_update_subset_insert)
    have old: "\<forall>x \<in> set (workers p). workerInv w userDir names (sessionIndex p2) x"
      using inv post(3) by (auto simp: poolInv_def intro: workerInv_mono)
    have a: "\<forall>x \<in> set ((workers p)[k := st']). workerInv w userDir names (sessionIndex p2) x"
      using sub old post(2) by auto
    have b: "Exited \<in> set ((workers p)[k := st']) \<longrightarrow>
             stopRequested (jobOf p2) \<or> length names \<le> sessionIndex p2"
    proof
      assume "Exited \<in> set ((workers p)[k := st'])"
      then have "st' = Exited \<or> Exited \<in> set (workers p)" using sub by auto
      then show "stopRequested (jobOf p2) \<or> length names \<le> sessionIndex p2"
      proof
        assume "st' = Exited"
        then show ?thesis using post(4,6) by simp
      next
        assume "Exited \<in> set (workers p)"
        then have "stopRequested (jobOf p) \<or> length names \<le> sessionIndex p"
          using inv by (simp add: poolInv_def exitInv_def)
        then show ?thesis using post(3,4) by auto
      qed
    qed
    show ?thesis unfolding r
      using post(1,5) a b by (simp add: poolInv_def setWorker_def exitInv_def coreInv_def)
  qed
qed

lemma resume_inv:
  assumes "poolInv w userDir names p"
  shows "poolInv w userDir names (resume w userDir names g k p)"
proof (cases "k < length (workers p)")
  case False
  then show ?thesis using assms by (simp add: resume_def)
next
  case True
  show ?thesis
  proof (cases "workers p ! k")
    case (Launching i)
    then show ?thesis using resume_Launching assms True by simp
  next
    case (OpeningPage i)
    then show ?thesis using resume_OpeningPage assms True by simp
  next
    case (Linking i j s f rs)
    then show ?thesis using resume_Linking assms True by simp
  next
    case (Closing i pending)
    then show ?thesis using resume_Closing assms True by simp
  next
    case Exited
    then show ?thesis using assms True by (simp add: resume_def)
  next
    case (Crashed e)
    then show ?thesis using assms True by (simp add: resume_def)
  qed
qed

lemma poolStep_inv:
  assumes "poolInv w userDir names p"
  shows "poolInv w userDir names (poolStep w userDir names g ev p)"
proof (cases ev)
  case (Resume k)
  then show ?thesis using resume_inv assms by simp
next
  case StopRequested
  have "coreInv w userDir names (p\<lparr>jobOf := (jobOf p)\<lparr>stopRequested := True\<rparr>\<rparr>)"
    using poolInv_core [OF assms] by (simp add: coreInv_def)
  then have "poolInv w userDir names (p\<lparr>jobOf := (jobOf p)\<lparr>stopRequested := True\<rparr>\<rparr>)"
    by (auto intro: poolInv_frame [OF assms])
  then show ?thesis using StopRequested by simp
qed

lemma run_inv:
  "poolInv w userDir names p \<Longrightarrow> poolInv w userDir names (run w userDir names g evs p)"
  by (induction evs arbitrary: p) (auto simp: poolStep_inv)



lemma spawn_claimNext:
  assumes "coreInv w userDir names p0"
  shows "coreInv w userDir names (fst (spawn n (claimNext w userDir names) p0)) \<and>
         sessionIndex p0 \<le> sessionIndex (fst (spawn n (claimNext w userDir names) p0)) \<and>
         jobOf (fst (spawn n (claimNext w userDir names) p0)) = jobOf p0 \<and>
         length (snd (spawn n (claimNext w userDir names) p0)) = n \<and>
         (\<forall>st \<in> set (snd (spawn n (claimNext w userDir names) p0)).
            workerInv w userDir names (sessionIndex (fst (spawn n (claimNext w userDir names) p0))) st) \<and>
         (Exited \<in> set (snd (spawn n (claimNext w userDir names) p0)) \<longrightarrow>
            stopRequested (jobOf p0) \<or>
            length names \<le> sessionIndex (fst (spawn n (claimNext w userDir names) p0)))"
  using assms
proof (induction n arbitrary: p0)
  case 0
  then show ?case by simp
next
  case (Suc n)
  obtain p1 st where cl: "claimNext w userDir names p0 = (p1, st)"
    by (cases "claimNext w userDir names p0") auto
  from claimNext_post [OF Suc.prems] cl
  have post: "coreInv w userDir names p1" "workerInv w userDir names (sessionIndex p1) st"
    "sessionIndex p0 \<le> sessionIndex p1" "jobOf p1 = jobOf p0"
    "st = Exited \<longrightarrow> stopRequested (jobOf p0) \<or> length names \<le> sessionIndex p1"
    by (auto simp: claimNextPost_def)
  let ?r = "spawn n (claimNext w userDir names) p1"
  note ih = Suc.IH [OF post(1)]
  have sp: "spawn (Suc n) (claimNext w userDir names) p0 = (fst ?r, st # snd ?r)"
    using cl by (simp add: split_beta)
  have "workerInv w userDir names (sessionIndex (fst ?r)) st"
    using post(2) ih by (auto intro: workerInv_mono)
  moreover have "st = Exited \<longrightarrow> stopRequested (jobOf p0) \<or> length names \<le> sessionIndex (fst ?r)"
    using post(5) ih by auto
  ultimately show ?case unfolding sp using ih post(3,4) by auto
qed



lemma joinPool_inv: "poolInv w userDir names (joinPool w schedule userDir names g concurrency)"
proof -
  let ?p0 = "\<lparr>sessionIndex = 0, emitted = [],
              jobOf = \<lparr>browsers = [], stopRequested = False\<rparr>, workers = [], navigated = []\<rparr>"
  let ?r = "spawn concurrency (claimNext w userDir names) ?p0"
  have "coreInv w userDir names ?p0" by (simp add: coreInv_def)
  note sp = spawn_claimNext [OF this, of concurrency]
  have "poolInv w userDir names ((fst ?r)\<lparr>workers := snd ?r\<rparr>)"
    using sp by (simp add: poolInv_def exitInv_def coreInv_def)
  then have "poolInv w userDir names (run w userDir names g schedule ((fst ?r)\<lparr>workers := snd ?r\<rparr>))"
    by (rule run_inv)
  then show ?thesis by (simp add: joinPool_def split_beta Let_def)
qed


lemma countsOf_total: "countsOf s f rs \<Longrightarrow> s + f = length rs"
  using sum_length_filter_compl [of ok rs] by (simp add: countsOf_def)

text \<open>
  C10. In every state the pool of \<open>startJoinGroups\<close> reaches, with any number of
  workers and any order of events, stop requests among them: each Outcome pushed for a
  session whose profile directory exists is the finished Outcome of that session, and
  its summary has \<open>success + failed = total\<close>, \<open>total\<close> the number of entries of
  its \<open>groups\<close> list, \<open>success\<close> the number of entries with \<open>ok = true\<close> and
  \<open>failed\<close> the number of the others.
\<close>

theorem join_outcome_summary_consistent:
  "\<forall>(i, out) \<in> set (emitted (joinPool w schedule userDir sessionNames g concurrency)).
     existsSync w (pathJoin w userDir (sanitizeName (sessionNames ! i))) \<longrightarrow>
     (\<exists>sm gs. out = JoinOutcome (sessionNames ! i) True ''Selesai'' sm gs \<and>
        success sm + failed sm = total sm \<and> total sm = length gs \<and>
        success sm = length (filter ok gs) \<and> failed sm = length (filter (\<lambda>r. \<not> ok r) gs))"
proof (intro ballI, clarify)
  fix i out
  let ?p = "joinPool w schedule userDir sessionNames g concurrency"
  assume x: "(i, out) \<in> set (emitted ?p)"
    and ex: "existsSync w (pathJoin w userDir (sanitizeName (sessionNames ! i)))"
  have "coreInv w userDir sessionNames ?p" using joinPool_inv by (rule poolInv_core)
  with x have "emissionOk w userDir sessionNames (i, out)" by (auto simp: coreInv_def)
  with ex obtain s f rs where o: "out = doneOutcome (sessionNames ! i) s f rs" and c: "countsOf s f rs"
    by (auto simp: emissionOk_def dirExists_def)
  from c have t: "s + f = length rs" by (rule countsOf_total)
  show "\<exists>sm gs. out = JoinOutcome (sessionNames ! i) True ''Selesai'' sm gs \<and>
        success sm + failed sm = total sm \<and> total sm = length gs \<and>
        success sm = length (filter ok gs) \<and> failed sm = length (filter (\<lambda>r. \<not> ok r) gs)"
    using o c t by (simp add: doneOutcome_def countsOf_def)
qed



lemmas join_eval = joinPool_def claimNext.simps resume_def setWorker_def settled_def joinLink_def
  groupsFor_def doneOutcome_def missingOutcome_def stubWorld_def sanitizeName_safe
  safeChar_def char_class_defs Let_def

text \<open>
  A run that is cancelled after the first of two links: one worker, session \<open>A\<close>.
\<close>

theorem join_outcome_summary_consistent_witness:
  "(0, JoinOutcome ''A'' True ''Selesai'' \<lparr>success = 1, failed = 0, total = 1\<rparr>
         [\<lparr>group = ''l1'', ok = True, message = None\<rparr>])
     \<in> set (emitted (joinPool (stubWorld\<lparr>existsSync := (\<lambda>p. True)\<rparr>)
                 [Resume 0, Resume 0, Resume 0, StopRequested, Resume 0, Resume 0]
                 ''./data/t1'' [''A''] [''A'' \<mapsto> [''l1'', ''l2'']] 1))
   \<and> (\<exists>sm gs. JoinOutcome ''A'' True ''Selesai'' \<lparr>success = 1, failed = 0, total = 1\<rparr>
                  [\<lparr>group = ''l1'', ok = True, message = None\<rparr>]
                = JoinOutcome ([''A''] ! 0) True ''Selesai'' sm gs \<and>
        success sm + failed sm = total sm \<and> total sm = length gs \<and>
        success sm = length (filter ok gs) \<and> failed sm = length (filter (\<lambda>r. \<not> ok r) gs))"
proof -
  let ?w = "stubWorld\<lparr>existsSync := (\<lambda>p. True)\<rparr>"
  let ?P = "joinPool ?w [Resume 0, Resume 0, Resume 0, StopRequested, Resume 0, Resume 0]
              ''./data/t1'' [''A''] [''A'' \<mapsto> [''l1'', ''l2'']] 1"
  let ?out = "JoinOutcome ''A'' True ''Selesai'' \<lparr>success = 1, failed = 0, total = 1\<rparr>
                [\<lparr>group = ''l1'', ok = True, message = None\<rparr>]"
  have e: "emitted ?P = [(0, ?out)]"
    by (simp add: join_eval)
  then have m: "(0, ?out) \<in> set (emitted ?P)" by simp
  have x: "existsSync ?w (pathJoin ?w ''./data/t1'' (sanitizeName ([''A''] ! 0)))" by simp
  from join_outcome_summary_consistent [of ?w _ "''./data/t1''" "[''A'']" _ 1] m x
  have "\<exists>sm gs. ?out = JoinOutcome ([''A''] ! 0) True ''Selesai'' sm gs \<and>
        success sm + failed sm = total sm \<and> total sm = length gs \<and>
        success sm = length (filter ok gs) \<and> failed sm = length (filter (\<lambda>r. \<not> ok r) gs)"
    by blast
  with m show ?thesis by blast
qed


subsection \<open>Properties of the worker pools\<close>

text \<open>
  The counting invariant of a pool, for any property \<open>P\<close> of records: the records with
  \<open>P\<close> in the results array, together with those the busy workers have still to push,
  are those of the items claimed so far: the items below the cursor.
\<close>

definition busyCount :: "(outcome \<Rightarrow> bool) \<Rightarrow> qworker \<Rightarrow> nat" where
  "busyCount P st = (case st of Busy i queue \<Rightarrow> length (filter P queue) | Ended \<Rightarrow> 0 | Broken e \<Rightarrow> 0)"

definition pendingCount :: "(outcome \<Rightarrow> bool) \<Rightarrow> qworker list \<Rightarrow> nat" where
  "pendingCount P sts = sum_list (map (busyCount P) sts)"

definition claimedCount :: "(outcome \<Rightarrow> bool) \<Rightarrow> (nat \<Rightarrow> plan) \<Rightarrow> nat \<Rightarrow> nat" where
  "claimedCount P plans c = (\<Sum>i<c. length (filter P (planPushes (plans i))))"

definition countInv :: "(outcome \<Rightarrow> bool) \<Rightarrow> nat \<Rightarrow> (nat \<Rightarrow> plan) \<Rightarrow> qpool \<Rightarrow> bool" where
  "countInv P n plans p =
     (cursor p \<le> n \<and>
      length (filter P (collected p)) + pendingCount P (crew p) = claimedCount P plans (cursor p))"

lemma claimedCount_Suc:
  "claimedCount P plans (Suc c) = claimedCount P plans c + length (filter P (planPushes (plans c)))"
  by (simp add: claimedCount_def)

lemma pendingCount_update:
  "k < length sts \<Longrightarrow>
   pendingCount P (sts[k := st]) + busyCount P (sts ! k) = pendingCount P sts + busyCount P st"
proof (induction sts arbitrary: k)
  case Nil
  then show ?case by simp
next
  case (Cons a sts)
  show ?case
  proof (cases k)
    case 0
    then show ?thesis by (simp add: pendingCount_def)
  next
    case (Suc k')
    then have "k' < length sts" using Cons.prems by simp
    from Cons.IH [OF this] show ?thesis using Suc by (simp add: pendingCount_def)
  qed
qed

text \<open>
  No worker leaves its loop early: no loop condition sees the flag and no item ends with
  \<open>break\<close>. Then a worker that has returned has found the cursor at the end.
\<close>

definition neverLeaves :: "(nat \<Rightarrow> bool) \<Rightarrow> (nat \<Rightarrow> plan) \<Rightarrow> bool" where
  "neverLeaves stopAtHead plans = ((\<forall>c. \<not> stopAtHead c) \<and> (\<forall>i. \<not> planBreak (plans i)))"

definition claimItemPost ::
  "(outcome \<Rightarrow> bool) \<Rightarrow> nat \<Rightarrow> (nat \<Rightarrow> bool) \<Rightarrow> (nat \<Rightarrow> plan) \<Rightarrow> qpool \<Rightarrow> qpool \<times> qworker \<Rightarrow> bool" where
  "claimItemPost P n stopAtHead plans p r =
     (cursor (fst r) \<le> n \<and> cursor p \<le> cursor (fst r) \<and> crew (fst r) = crew p \<and>
      length (filter P (collected (fst r))) + busyCount P (snd r) + claimedCount P plans (cursor p)
        = length (filter P (collected p)) + claimedCount P plans (cursor (fst r)) \<and>
      (snd r = Ended \<longrightarrow> neverLeaves stopAtHead plans \<longrightarrow> n \<le> cursor (fst r)))"

lemma claimItem_post:
  "cursor p \<le> n \<Longrightarrow> claimItemPost P n stopAtHead plans p (claimItem n stopAtHead plans p)"
proof (induction n stopAtHead plans p rule: claimItem.induct)
  case (1 n stopAtHead plans p)
  show ?case
  proof (cases "cursor p < n \<and> \<not> stopAtHead (cursor p)")
    case False
    then have "claimItem n stopAtHead plans p = (p, Ended)"
      by (subst claimItem.simps) auto
    then show ?thesis using "1.prems" False
      by (auto simp: claimItemPost_def busyCount_def neverLeaves_def)
  next
    case True
    let ?i = "cursor p"
    show ?thesis
    proof (cases "planImmediate (plans ?i)")
      case imm: False
      then have "claimItem n stopAtHead plans p
                   = (p\<lparr>cursor := Suc ?i\<rparr>, Busy ?i (planPushes (plans ?i)))"
        using True by (subst claimItem.simps) (simp add: Let_def)
      then show ?thesis using True
        by (simp add: claimItemPost_def busyCount_def claimedCount_Suc)
    next
      case imm: True
      let ?p2 = "p\<lparr>cursor := Suc ?i, collected := collected p @ planPushes (plans ?i)\<rparr>"
      show ?thesis
      proof (cases "planBreak (plans ?i)")
        case brk: True
        have "claimItem n stopAtHead plans p = (?p2, Ended)"
          using True imm brk by (subst claimItem.simps) (simp add: Let_def)
        then show ?thesis using True brk
          by (auto simp: claimItemPost_def busyCount_def claimedCount_Suc neverLeaves_def)
      next
        case brk: False
        have eq: "claimItem n stopAtHead plans p = claimItem n stopAtHead plans ?p2"
          using True imm brk by (subst claimItem.simps) (simp add: Let_def)
        have "cursor ?p2 \<le> n" using True by simp
        from "1.IH" [OF True refl refl imm refl brk] this
        have "claimItemPost P n stopAtHead plans ?p2 (claimItem n stopAtHead plans ?p2)" by simp
        then show ?thesis unfolding eq by (auto simp: claimItemPost_def claimedCount_Suc)
      qed
    qed
  qed
qed

definition endInv :: "nat \<Rightarrow> (nat \<Rightarrow> bool) \<Rightarrow> (nat \<Rightarrow> plan) \<Rightarrow> qpool \<Rightarrow> bool" where
  "endInv n stopAtHead plans p =
     (Ended \<in> set (crew p) \<longrightarrow> neverLeaves stopAtHead plans \<longrightarrow> n \<le> cursor p)"

definition poolOk :: "(outcome \<Rightarrow> bool) \<Rightarrow> nat \<Rightarrow> (nat \<Rightarrow> bool) \<Rightarrow> (nat \<Rightarrow> plan) \<Rightarrow> qpool \<Rightarrow> bool" where
  "poolOk P n stopAtHead plans p = (countInv P n plans p \<and> endInv n stopAtHead plans p)"

lemma advance_ok:
  assumes inv: "poolOk P n stopAtHead plans p"
  shows "poolOk P n stopAtHead plans (advance n stopAtHead plans k p)"
proof (cases "k < length (crew p)")
  case False
  then show ?thesis using inv by (simp add: advance_def)
next
  case k: True
  note upd = pendingCount_update [OF k, of P]
  have sub: "\<And>st. set ((crew p)[k := st]) \<subseteq> insert st (set (crew p))"
    by (rule set_update_subset_insert)
  from inv have ci: "cursor p \<le> n"
    "length (filter P (collected p)) + pendingCount P (crew p) = claimedCount P plans (cursor p)"
    and ei: "Ended \<in> set (crew p) \<longrightarrow> neverLeaves stopAtHead plans \<longrightarrow> n \<le> cursor p"
    by (auto simp: poolOk_def countInv_def endInv_def)
  show ?thesis
  proof (cases "crew p ! k")
    case Ended
    then show ?thesis using inv k by (simp add: advance_def)
  next
    case (Broken e)
    then show ?thesis using inv k by (simp add: advance_def)
  next
    case (Busy i queue)
    show ?thesis
    proof (cases queue)
      case (Cons r rest)
      let ?p' = "p\<lparr>collected := collected p @ [r], crew := (crew p)[k := Busy i rest]\<rparr>"
      have a: "advance n stopAtHead plans k p = ?p'"
        using k Busy Cons by (simp add: advance_def)
      have "pendingCount P ((crew p)[k := Busy i rest]) + length (filter P (r # rest))
              = pendingCount P (crew p) + length (filter P rest)"
        using upd [of "Busy i rest"] Busy Cons by (simp add: busyCount_def)
      then have c: "countInv P n plans ?p'"
        using ci by (auto simp: countInv_def)
      have "Ended \<in> set ((crew p)[k := Busy i rest]) \<longrightarrow> Ended \<in> set (crew p)"
        using sub [of "Busy i rest"] by auto
      then have "endInv n stopAtHead plans ?p'" using ei by (simp add: endInv_def)
      with c show ?thesis unfolding a by (simp add: poolOk_def)
    next
      case Nil
      have b0: "busyCount P (crew p ! k) = 0" using Busy Nil by (simp add: busyCount_def)
      show ?thesis
      proof (cases "planError (plans i)")
        case (Some e)
        let ?p' = "p\<lparr>crew := (crew p)[k := Broken e]\<rparr>"
        have a: "advance n stopAtHead plans k p = ?p'"
          using k Busy Nil Some by (simp add: advance_def)
        have "pendingCount P ((crew p)[k := Broken e]) = pendingCount P (crew p)"
          using upd [of "Broken e"] b0 by (simp add: busyCount_def)
        then have c: "countInv P n plans ?p'" using ci by (simp add: countInv_def)
        have "Ended \<in> set ((crew p)[k := Broken e]) \<longrightarrow> Ended \<in> set (crew p)"
          using sub [of "Broken e"] by auto
        then have "endInv n stopAtHead plans ?p'" using ei by (simp add: endInv_def)
        with c show ?thesis unfolding a by (simp add: poolOk_def)
      next
        case None
        show ?thesis
        proof (cases "planBreak (plans i)")
          case True
          let ?p' = "p\<lparr>crew := (crew p)[k := Ended]\<rparr>"
          have a: "advance n stopAtHead plans k p = ?p'"
            using k Busy Nil None True by (simp add: advance_def)
          have "pendingCount P ((crew p)[k := Ended]) = pendingCount P (crew p)"
            using upd [of Ended] b0 by (simp add: busyCount_def)
          then have c: "countInv P n plans ?p'" using ci by (simp add: countInv_def)
          have "\<not> neverLeaves stopAtHead plans" using True by (auto simp: neverLeaves_def)
          then have "endInv n stopAtHead plans ?p'" by (simp add: endInv_def)
          with c show ?thesis unfolding a by (simp add: poolOk_def)
        next
          case False
          obtain p2 st where cl: "claimItem n stopAtHead plans p = (p2, st)"
            by (cases "claimItem n stopAtHead plans p") auto
          let ?p' = "p2\<lparr>crew := (crew p2)[k := st]\<rparr>"
          have a: "advance n stopAtHead plans k p = ?p'"
            using k Busy Nil None False cl by (simp add: advance_def)
          from claimItem_post [OF ci(1), of P stopAtHead plans] cl
          have post: "cursor p2 \<le> n" "cursor p \<le> cursor p2" "crew p2 = crew p"
            "length (filter P (collected p2)) + busyCount P st + claimedCount P plans (cursor p)
               = length (filter P (collected p)) + claimedCount P plans (cursor p2)"
            "st = Ended \<longrightarrow> neverLeaves stopAtHead plans \<longrightarrow> n \<le> cursor p2"
            by (auto simp: claimItemPost_def)
          have "pendingCount P ((crew p)[k := st]) = pendingCount P (crew p) + busyCount P st"
            using upd [of st] b0 by simp
          then have c: "countInv P n plans ?p'"
            using ci post by (simp add: countInv_def)
          have "Ended \<in> set ((crew p)[k := st]) \<longrightarrow> neverLeaves stopAtHead plans \<longrightarrow> n \<le> cursor p2"
          proof (intro impI)
            assume e: "Ended \<in> set ((crew p)[k := st])" and nl: "neverLeaves stopAtHead plans"
            from e have "st = Ended \<or> Ended \<in> set (crew p)" using sub [of st] by auto
            then show "n \<le> cursor p2"
            proof
              assume "st = Ended"
              then show ?thesis using post(5) nl by simp
            next
              assume "Ended \<in> set (crew p)"
              then show ?thesis using ei nl post(2) by auto
            qed
          qed
          then have "endInv n stopAtHead plans ?p'" using post(3) by (simp add: endInv_def)
          with c show ?thesis unfolding a by (simp add: poolOk_def)
        qed
      qed
    qed
  qed
qed

lemma runPool_ok:
  "poolOk P n stopAtHead plans p \<Longrightarrow> poolOk P n stopAtHead plans (runPool n stopAtHead plans ks p)"
  by (induction ks arbitrary: p) (auto simp: advance_ok)

lemma advance_crew_length:
  "length (crew (advance n stopAtHead plans k p)) = length (crew p)"
proof -
  have "crew (fst (claimItem n stopAtHead plans q)) = crew q" for q
  proof (induction n stopAtHead plans q rule: claimItem.induct)
    case (1 n stopAtHead plans q)
    show ?case
    proof (cases "cursor q < n \<and> \<not> stopAtHead (cursor q)")
      case False
      then have "claimItem n stopAtHead plans q = (q, Ended)"
        by (subst claimItem.simps) auto
      then show ?thesis by simp
    next
      case True
      show ?thesis
      proof (cases "planImmediate (plans (cursor q))")
        case imm: False
        then have "claimItem n stopAtHead plans q
                     = (q\<lparr>cursor := Suc (cursor q)\<rparr>, Busy (cursor q) (planPushes (plans (cursor q))))"
          using True by (subst claimItem.simps) (simp add: Let_def)
        then show ?thesis by simp
      next
        case imm: True
        let ?q2 = "q\<lparr>cursor := Suc (cursor q),
                     collected := collected q @ planPushes (plans (cursor q))\<rparr>"
        show ?thesis
        proof (cases "planBreak (plans (cursor q))")
          case brk: True
          have "claimItem n stopAtHead plans q = (?q2, Ended)"
            using True imm brk by (subst claimItem.simps) (simp add: Let_def)
          then show ?thesis by simp
        next
          case brk: False
          have eq: "claimItem n stopAtHead plans q = claimItem n stopAtHead plans ?q2"
            using True imm brk by (subst claimItem.simps) (simp add: Let_def)
          from "1.IH" [OF True refl refl imm refl brk] show ?thesis unfolding eq by simp
        qed
      qed
    qed
  qed
  then show ?thesis
    by (auto simp: advance_def split: qworker.splits list.splits option.splits prod.splits)
       (metis fst_conv)
qed

lemma runPool_crew_length:
  "length (crew (runPool n stopAtHead plans ks p)) = length (crew p)"
  by (induction ks arbitrary: p) (auto simp: advance_crew_length)


lemma spawn_claimItem:
  assumes "cursor p0 \<le> n"
  shows "cursor (fst (spawn m (claimItem n stopAtHead plans) p0)) \<le> n \<and>
         cursor p0 \<le> cursor (fst (spawn m (claimItem n stopAtHead plans) p0)) \<and>
         crew (fst (spawn m (claimItem n stopAtHead plans) p0)) = crew p0 \<and>
         length (snd (spawn m (claimItem n stopAtHead plans) p0)) = m \<and>
         length (filter P (collected (fst (spawn m (claimItem n stopAtHead plans) p0))))
           + pendingCount P (snd (spawn m (claimItem n stopAtHead plans) p0))
           + claimedCount P plans (cursor p0)
           = length (filter P (collected p0))
             + claimedCount P plans (cursor (fst (spawn m (claimItem n stopAtHead plans) p0))) \<and>
         (Ended \<in> set (snd (spawn m (claimItem n stopAtHead plans) p0)) \<longrightarrow>
            neverLeaves stopAtHead plans \<longrightarrow>
            n \<le> cursor (fst (spawn m (claimItem n stopAtHead plans) p0)))"
  using assms
proof (induction m arbitrary: p0)
  case 0
  then show ?case by (simp add: pendingCount_def)
next
  case (Suc m)
  obtain p1 st where cl: "claimItem n stopAtHead plans p0 = (p1, st)"
    by (cases "claimItem n stopAtHead plans p0") auto
  from claimItem_post [OF Suc.prems, of P stopAtHead plans] cl
  have post: "cursor p1 \<le> n" "cursor p0 \<le> cursor p1" "crew p1 = crew p0"
    "length (filter P (collected p1)) + busyCount P st + claimedCount P plans (cursor p0)
       = length (filter P (collected p0)) + claimedCount P plans (cursor p1)"
    "st = Ended \<longrightarrow> neverLeaves stopAtHead plans \<longrightarrow> n \<le> cursor p1"
    by (auto simp: claimItemPost_def)
  let ?r = "spawn m (claimItem n stopAtHead plans) p1"
  note ih = Suc.IH [OF post(1)]
  have sp: "spawn (Suc m) (claimItem n stopAtHead plans) p0 = (fst ?r, st # snd ?r)"
    using cl by (simp add: split_beta)
  have e: "st = Ended \<longrightarrow> neverLeaves stopAtHead plans \<longrightarrow> n \<le> cursor (fst ?r)"
    using post(5) ih by auto
  have cnt: "length (filter P (collected (fst ?r))) + pendingCount P (st # snd ?r)
               + claimedCount P plans (cursor p0)
             = length (filter P (collected p0)) + claimedCount P plans (cursor (fst ?r))"
    using post(4) ih by (simp add: pendingCount_def)
  show ?case unfolding sp using ih post(2,3) e cnt by auto
qed

lemma pool_ok: "poolOk P n stopAtHead plans (pool n stopAtHead plans schedule concurrency)"
proof -
  let ?p0 = "\<lparr>cursor = 0, collected = [], crew = []\<rparr>"
  let ?r = "spawn concurrency (claimItem n stopAtHead plans) ?p0"
  have "cursor ?p0 \<le> n" by simp
  note sp = spawn_claimItem [OF this, of concurrency stopAtHead plans P]
  have "poolOk P n stopAtHead plans ((fst ?r)\<lparr>crew := snd ?r\<rparr>)"
    using sp by (simp add: poolOk_def countInv_def endInv_def claimedCount_def)
  then have "poolOk P n stopAtHead plans
               (runPool n stopAtHead plans schedule ((fst ?r)\<lparr>crew := snd ?r\<rparr>))"
    by (rule runPool_ok)
  then show ?thesis by (simp add: pool_def split_beta Let_def)
qed

lemma pool_crew_length: "length (crew (pool n stopAtHead plans schedule concurrency)) = concurrency"
proof -
  let ?p0 = "\<lparr>cursor = 0, collected = [], crew = []\<rparr>"
  have "cursor ?p0 \<le> n" by simp
  note sp = spawn_claimItem [OF this, of concurrency stopAtHead plans "\<lambda>r. True"]
  then show ?thesis by (simp add: pool_def split_beta Let_def runPool_crew_length)
qed

lemma pendingCount_all_Ended:
  "list_all (\<lambda>st. st = Ended) sts \<Longrightarrow> pendingCount P sts = 0"
  by (induction sts) (auto simp: pendingCount_def busyCount_def)

text \<open>
  When the promise of the entry point resolves, all workers have returned and nothing is
  left to push: the results array holds exactly the records of the claimed items.
\<close>

lemma settle_Resolved:
  assumes "settle (pool n stopAtHead plans schedule concurrency) build = Resolved v"
  shows "v = build (collected (pool n stopAtHead plans schedule concurrency)) \<and>
         cursor (pool n stopAtHead plans schedule concurrency) \<le> n \<and>
         (0 < concurrency \<and> neverLeaves stopAtHead plans \<longrightarrow>
            cursor (pool n stopAtHead plans schedule concurrency) = n) \<and>
         (\<forall>P. length (filter P (collected (pool n stopAtHead plans schedule concurrency)))
               = claimedCount P plans (cursor (pool n stopAtHead plans schedule concurrency)))"
proof -
  let ?p = "pool n stopAtHead plans schedule concurrency"
  from assms have all: "list_all (\<lambda>st. st = Ended) (crew ?p)" and v: "v = build (collected ?p)"
    by (auto simp: settle_def split: list.splits if_splits)
  have ok: "poolOk P n stopAtHead plans ?p" for P by (rule pool_ok)
  have c: "cursor ?p \<le> n" using ok [of "\<lambda>r. True"] by (simp add: poolOk_def countInv_def)
  have cnt: "\<forall>P. length (filter P (collected ?p)) = claimedCount P plans (cursor ?p)"
  proof
    fix P
    show "length (filter P (collected ?p)) = claimedCount P plans (cursor ?p)"
      using ok [of P] pendingCount_all_Ended [OF all, of P] by (simp add: poolOk_def countInv_def)
  qed
  have "0 < concurrency \<and> neverLeaves stopAtHead plans \<longrightarrow> cursor ?p = n"
  proof
    assume a: "0 < concurrency \<and> neverLeaves stopAtHead plans"
    have "length (crew ?p) = concurrency" by (rule pool_crew_length)
    with a have "crew ?p \<noteq> []" by auto
    then obtain st where st: "st \<in> set (crew ?p)" by (cases "crew ?p") auto
    with all have "st = Ended" by (auto simp: list_all_iff)
    with st have "Ended \<in> set (crew ?p)" by simp
    then have "n \<le> cursor ?p" using ok [of "\<lambda>r. True"] a by (simp add: poolOk_def endInv_def)
    with c show "cursor ?p = n" by simp
  qed
  with v c cnt show ?thesis by blast
qed

subsection \<open>Properties of the Result Aggregator and of the items\<close>

text \<open>A summary counts the records that have an \<open>ok\<close>, each once.\<close>

lemma summarize_counts_ok:
  "success (summarize rs) + failed (summarize rs) = length (filter hasOk rs)"
proof (induction rs)
  case Nil
  then show ?case by (simp add: summarize_def)
next
  case (Cons r rs)
  then show ?case by (cases r) (auto simp: summarize_def hasOk_def)
qed

lemma hasOk_simps [simp]:
  "hasOk (AccountOutcome n e b p m)" "hasOk (JoinOutcome s b msg sm gs)"
  "hasOk (SessionFailure s msg)" "hasOk (TargetOutcome s g b)" "\<not> hasOk (AttemptRecord po c msg)"
  by (auto simp: hasOk_def)

text \<open>
  \<open>attemptPostingWithRetries\<close> pushes at most one record per target, and a record it
  pushes has no \<open>ok\<close> and is not top-level.
\<close>

lemma postedRecord_additional: "\<not> topLevel (postedRecord c) \<and> \<not> hasOk (postedRecord c)"
  by (simp add: postedRecord_def)

lemma attemptsFrom_pushes:
  "list_all (\<lambda>r. \<not> hasOk r \<and> \<not> topLevel r) (fst (attemptsFrom env flag t a n)) \<and>
   length (fst (attemptsFrom env flag t a n)) \<le> 1"
proof (induction n arbitrary: a)
  case 0
  then show ?case by simp
next
  case (Suc n)
  show ?case
  proof (cases "flag (AttemptStart t a)")
    case True
    then show ?thesis by simp
  next
    case False
    show ?thesis
    proof (cases "runActs env flag (attemptActs env t a)")
      case None
      then show ?thesis using False by (simp add: postedRecord_additional)
    next
      case (Some r)
      show ?thesis
      proof (cases r)
        case SawStop
        then show ?thesis using False Some by simp
      next
        case (Threw e)
        obtain msg where e: "e = Error msg" by (cases e) auto
        show ?thesis using False Some Threw e Suc.IH [of "Suc a"] by simp
      qed
    qed
  qed
qed

lemma attemptPostingWithRetries_pushes:
  "list_all (\<lambda>r. \<not> hasOk r \<and> \<not> topLevel r) (fst (attemptPostingWithRetries env flag t)) \<and>
   length (fst (attemptPostingWithRetries env flag t)) \<le> 1"
  unfolding attemptPostingWithRetries_def by (rule attemptsFrom_pushes)

lemma filter_additional:
  "list_all (\<lambda>r. \<not> hasOk r \<and> \<not> topLevel r) rs \<Longrightarrow>
   filter topLevel rs = [] \<and> filter hasOk rs = []"
  by (induction rs) auto

text \<open>
  The number of targets the loop of \<open>postTargets\<close> gets to before a poll sees the
  flag; for each of them the worker pushes exactly one record \<open>{session, group, ok}\<close>.
  A session reaches the scan of the pinned anchors when its directory exists, the
  browser and the page open, and neither poll before the scan sees the flag. The
  per-session failure Outcomes of a session: one when its directory is missing, one when
  the scan it reached fails, none otherwise. The per-target Outcomes of a session: one
  for every target reached, when the scan succeeded.
\<close>

fun targetsReached :: "(poll \<Rightarrow> bool) \<Rightarrow> nat \<Rightarrow> string list \<Rightarrow> nat" where
  "targetsReached flag t [] = 0"
| "targetsReached flag t (url # urls) =
     (if flag (BeforeTarget t) \<or> flag (AfterTargetGoto t) then 0
      else Suc (targetsReached flag (Suc t) urls))"

definition reachesScan :: "world \<Rightarrow> (poll \<Rightarrow> bool) \<Rightarrow> string \<Rightarrow> nat \<Rightarrow> string \<Rightarrow> bool" where
  "reachesScan w flag userDir i sessName =
     (existsSync w (pathJoin w userDir (sanitizeName sessName)) \<and>
      page w i Launch = None \<and> page w i NewPage = None \<and>
      \<not> flag BeforeFeed \<and> \<not> flag AfterPinnedWait)"

definition sessionFailures :: "world \<Rightarrow> (poll \<Rightarrow> bool) \<Rightarrow> string \<Rightarrow> nat \<Rightarrow> string \<Rightarrow> nat" where
  "sessionFailures w flag userDir i sessName =
     (if \<not> existsSync w (pathJoin w userDir (sanitizeName sessName)) then 1
      else if reachesScan w flag userDir i sessName \<and> page w i ScanAnchors \<noteq> None then 1
      else 0)"

definition targetOutcomes ::
  "world \<Rightarrow> (poll \<Rightarrow> bool) \<Rightarrow> string list \<Rightarrow> string \<Rightarrow> nat \<Rightarrow> string \<Rightarrow> nat" where
  "targetOutcomes w flag hrefs userDir i sessName =
     (if reachesScan w flag userDir i sessName \<and> page w i ScanAnchors = None
      then targetsReached flag 0 (discoverUrls hrefs) else 0)"

lemma postTargets_counts:
  "length (filter hasOk (postTargets env flag sessName t urls))
     = targetsReached flag t urls \<and>
   filter topLevel (postTargets env flag sessName t urls) = []"
proof (induction urls arbitrary: t)
  case Nil
  then show ?case by simp
next
  case (Cons url urls)
  show ?case
  proof (cases "flag (BeforeTarget t) \<or> flag (AfterTargetGoto t)")
    case True
    then show ?thesis by auto
  next
    case False
    obtain records posted where ap: "attemptPostingWithRetries env flag t = (records, posted)"
      by (cases "attemptPostingWithRetries env flag t") auto
    have "list_all (\<lambda>r. \<not> hasOk r \<and> \<not> topLevel r) records"
      using attemptPostingWithRetries_pushes [of env flag t] ap by simp
    from filter_additional [OF this] show ?thesis using False ap Cons.IH [of "Suc t"] by simp
  qed
qed

lemma postItem_counts:
  "length (filter hasOk (postPushed (postItem w flag hrefs userDir i sessName)))
     = sessionFailures w flag userDir i sessName + targetOutcomes w flag hrefs userDir i sessName \<and>
   length (filter topLevel (postPushed (postItem w flag hrefs userDir i sessName)))
     = sessionFailures w flag userDir i sessName"
  by (simp add: postItem_def Let_def sessionFailures_def targetOutcomes_def reachesScan_def
      postTargets_counts split: option.splits)

lemma postItem_break:
  "postBreak (postItem w flag hrefs userDir i sessName) \<Longrightarrow> flag BeforeFeed \<or> flag AfterPinnedWait"
  by (simp add: postItem_def Let_def split: option.splits if_splits)

text \<open>Session Creation pushes per-account Outcomes only, in either text.\<close>

lemma account_records [simp]:
  "topLevel (accountOk acc sessionPath msg)" "hasOk (accountOk acc sessionPath msg)"
  "topLevel (accountFailed acc m)" "hasOk (accountFailed acc m)"
  by (simp_all add: accountOk_def accountFailed_def)

lemma createItem_a_pushes:
  "list_all (\<lambda>r. topLevel r \<and> hasOk r) (pushed (createItem_a w i acc sessionPath))"
proof (cases "ensureSessionDir w sessionPath")
  case (Some e)
  then show ?thesis by (simp add: createItem_a_def)
next
  case d: None
  show ?thesis
  proof (cases "page w i Launch")
    case (Some e)
    then show ?thesis using d by (simp add: createItem_a_def)
  next
    case l: None
    show ?thesis
    proof (cases "page w i NewPage")
      case (Some e)
      then show ?thesis using d l by (simp add: createItem_a_def)
    next
      case n: None
      obtain t r where rs: "runSteps (page w i) [WaitLoginForm, TypeEmail, TypePass, PressEnter] = (t, r)"
        by (cases "runSteps (page w i) [WaitLoginForm, TypeEmail, TypePass, PressEnter]") auto
      show ?thesis
        using d l n rs
        by (cases r; cases "page w i CloseBrowser") (simp_all add: createItem_a_def Let_def)
    qed
  qed
qed

lemma workerStart_b_keeps:
  assumes q: "\<And>acc msg. Q (accountFailed acc msg)"
  shows "\<forall>r \<in> set (results p). Q r \<Longrightarrow>
         \<forall>r \<in> set (results (fst (workerStart_b w userDir accounts jb p))). Q r"
proof (induction w userDir accounts jb p rule: workerStart_b.induct)
  case (1 w userDir accounts jb p)
  show ?case
  proof (cases "index p < length accounts \<and> \<not> stopRequested jb")
    case False
    then have "workerStart_b w userDir accounts jb p = (p, Returned)"
      by (subst workerStart_b.simps) auto
    then show ?thesis using "1.prems" by simp
  next
    case True
    let ?acc = "accounts ! index p"
    let ?path = "pathJoin w userDir (sanitizeName (nomorAkun ?acc))"
    show ?thesis
    proof (cases "ensureSessionDir w ?path")
      case None
      then have "workerStart_b w userDir accounts jb p
                   = (p\<lparr>index := Suc (index p)\<rparr>, AwaitingLaunch (index p))"
        using True by (subst workerStart_b.simps) (simp add: Let_def)
      then show ?thesis using "1.prems" by simp
    next
      case (Some e)
      let ?p2 = "p\<lparr>index := Suc (index p),
                  results := results p @
                    [accountFailed ?acc ''Gagal membuka browser atau koneksi ke Facebook bermasalah.'']\<rparr>"
      have a: "\<forall>r \<in> set (results ?p2). Q r"
        using "1.prems" q by auto
      note ih = "1.IH" [OF True refl refl refl refl Some]
      have eq: "workerStart_b w userDir accounts jb p = workerStart_b w userDir accounts jb ?p2"
        using True Some by (subst workerStart_b.simps) (simp add: Let_def)
      show ?thesis unfolding eq using ih a by simp
    qed
  qed
qed

lemma startCreateSessions_b_accounts_only:
  assumes "startCreateSessions_b w userId accounts concurrency = Inr ret"
  shows "\<forall>r \<in> set (returnedResults ret). topLevel r \<and> hasOk r"
proof -
  from assms obtain userDir where u: "ensureUserDir w userId = Inr userDir"
    by (auto simp: startCreateSessions_b_def split: sum.splits)
  let ?jb = "\<lparr>browsers = ([] :: nat list), stopRequested = False\<rparr>"
  let ?p = "fst (spawn concurrency (workerStart_b w userDir accounts ?jb) \<lparr>index = 0, results = []\<rparr>)"
  have "\<forall>r \<in> set (results ?p). topLevel r \<and> hasOk r"
  proof (rule spawn_invariant [where P = "\<lambda>p. \<forall>r \<in> set (results p). topLevel r \<and> hasOk r"])
    fix p :: cpool
    assume a: "\<forall>r \<in> set (results p). topLevel r \<and> hasOk r"
    have q: "\<And>acc msg. topLevel (accountFailed acc msg) \<and> hasOk (accountFailed acc msg)"
      by simp
    show "\<forall>r \<in> set (results (fst (workerStart_b w userDir accounts ?jb p))). topLevel r \<and> hasOk r"
      by (rule workerStart_b_keeps [where Q = "\<lambda>r. topLevel r \<and> hasOk r", OF q a])
  next
    show "\<forall>r \<in> set (results \<lparr>index = 0, results = []\<rparr>). topLevel r \<and> hasOk r" by simp
  qed
  moreover have "returnedResults ret = results ?p"
    using assms u by (auto simp: startCreateSessions_b_def split_beta Let_def)
  ultimately show ?thesis by simp
qed

lemma filter_none: "length (filter P rs) = 0 \<Longrightarrow> list_all (\<lambda>r. \<not> P r) rs"
  by (induction rs) (auto split: if_splits)

lemma claimedCount_zero:
  "(\<And>i. list_all (\<lambda>r. \<not> P r) (planPushes (plans i))) \<Longrightarrow> claimedCount P plans c = 0"
  by (simp add: claimedCount_def list_all_iff filter_empty_conv)

subsection \<open>Properties of the returned summaries\<close>

text \<open>
  The scenario: one session, two pinned groups, one worker, which goes on five times
  (four records to push, then the end of the item). One account for Session Creation.
\<close>

lemma twoGroups_discovered:
  "discoverUrls [''https://www.facebook.com/groups/1'', ''https://www.facebook.com/groups/2/'']
     = [''https://www.facebook.com/groups/1'', ''https://www.facebook.com/groups/2/'']"
  by (simp add: discoverUrls_def urlsPattern_def regexTest_def char_class_defs)

lemma twoGroups_session:
  "postItem openWorld (neverStopped 0) (twoGroups 0) ''./data/t1'' 0 ''A''
     = \<lparr>postPushed =
          [AttemptRecord True True ''Postingan dan komentar berhasil'',
           TargetOutcome ''A'' ''https://www.facebook.com/groups/1'' True,
           AttemptRecord True True ''Postingan dan komentar berhasil'',
           TargetOutcome ''A'' ''https://www.facebook.com/groups/2/'' True],
        postThrown = None, postBreak = False\<rparr>"
  by (simp add: postItem_def openWorld_def stubWorld_def neverStopped_def twoGroups_def
      twoGroups_discovered attemptPostingWithRetries_def MAX_ATTEMPTS_def numeral_2_eq_2
      attemptActs_def submitActs_def postedRecord_def Let_def)

lemma twoGroups_run:
  "startPostAndComment openWorld neverStopped twoGroups [0, 0, 0, 0, 0] ''t1'' [''A''] 1
     = Resolved
         \<lparr>postResults =
            [AttemptRecord True True ''Postingan dan komentar berhasil'',
             TargetOutcome ''A'' ''https://www.facebook.com/groups/1'' True,
             AttemptRecord True True ''Postingan dan komentar berhasil'',
             TargetOutcome ''A'' ''https://www.facebook.com/groups/2/'' True],
          postSummary = \<lparr>success = 2, failed = 0\<rparr>\<rparr>"
proof -
  have u: "ensureUserDir openWorld ''t1'' = Inr ''./data/t1''"
    by (simp add: ensureUserDir_def openWorld_def stubWorld_def)
  have pl: "postPlan openWorld neverStopped twoGroups ''./data/t1'' [''A''] 0
         = \<lparr>planImmediate = False,
            planPushes =
              [AttemptRecord True True ''Postingan dan komentar berhasil'',
               TargetOutcome ''A'' ''https://www.facebook.com/groups/1'' True,
               AttemptRecord True True ''Postingan dan komentar berhasil'',
               TargetOutcome ''A'' ''https://www.facebook.com/groups/2/'' True],
            planError = None, planBreak = False\<rparr>"
    by (simp add: postPlan_def Let_def twoGroups_session) (simp add: openWorld_def stubWorld_def)
  show ?thesis
    unfolding startPostAndComment_def u
    by (simp add: pool_def claimItem.simps advance_def settle_def allSettled_def pl
        neverStopped_def startPostAndComment_return_def summarize_def Let_def)
qed


lemma oneAccount_run_a:
  "startCreateSessions_a openWorld neverStopped [0, 0, 0, 0, 0] ''t1'' [acct111] 1
     = Resolved
         \<lparr>returnedResults = [AccountOutcome ''111'' ''a@x.com'' True (Some ''./data/t1/111'') None],
          returnedSummary = \<lparr>success = 1, failed = 0\<rparr>, workerStates = [Returned]\<rparr>"
proof -
  have u: "ensureUserDir openWorld ''t1'' = Inr ''./data/t1''"
    by (simp add: ensureUserDir_def openWorld_def stubWorld_def)
  have pl: "createPlan_a openWorld neverStopped ''./data/t1'' [acct111] 0
         = \<lparr>planImmediate = False,
            planPushes = [AccountOutcome ''111'' ''a@x.com'' True (Some ''./data/t1/111'') None],
            planError = None, planBreak = False\<rparr>"
    by (simp add: createPlan_a_def createItem_a_def Let_def openWorld_def stub_defs neverStopped_def
        sanitizeName_safe safeChar_def char_class_defs)
  show ?thesis
    unfolding startCreateSessions_a_def u
    by (simp add: pool_def claimItem.simps advance_def settle_def allSettled_def pl
        neverStopped_def summarize_def Let_def)
qed

lemma oneAccount_run_b:
  "startCreateSessions_b openWorld ''t1'' [acct111] 1
     = Inr \<lparr>returnedResults = [], returnedSummary = \<lparr>success = 0, failed = 0\<rparr>,
            workerStates = [AwaitingLaunch 0]\<rparr>"
  by (simp add: startCreateSessions_b_def workerStart_b.simps openWorld_def stub_defs
      summarize_def Let_def)

text \<open>
  C2, as the claim states it, fails for \<open>startPostAndComment\<close>. With one session
  whose feed shows two pinned groups and every call succeeding, the returned results
  hold two per-attempt records and two per-target records \<open>{session, group, ok}\<close>, and
  no top-level Outcome: the session itself gets no record. The summary counts the two
  per-target records, so \<open>success + failed\<close> is 2 while the number of top-level
  Outcomes in the returned list is 0.
\<close>

theorem startPostAndComment_two_groups_counterexample:
  "startPostAndComment openWorld neverStopped twoGroups [0, 0, 0, 0, 0] ''t1'' [''A''] 1
     = Resolved
         \<lparr>postResults =
            [AttemptRecord True True ''Postingan dan komentar berhasil'',
             TargetOutcome ''A'' ''https://www.facebook.com/groups/1'' True,
             AttemptRecord True True ''Postingan dan komentar berhasil'',
             TargetOutcome ''A'' ''https://www.facebook.com/groups/2/'' True],
          postSummary = \<lparr>success = 2, failed = 0\<rparr>\<rparr>
   \<and> length (filter topLevel
         [AttemptRecord True True ''Postingan dan komentar berhasil'',
          TargetOutcome ''A'' ''https://www.facebook.com/groups/1'' True,
          AttemptRecord True True ''Postingan dan komentar berhasil'',
          TargetOutcome ''A'' ''https://www.facebook.com/groups/2/'' True]) = 0"
  using twoGroups_run by simp

text \<open>
  C2, amended. Every summary is the summary of the returned results. In every summary
  that \<open>startPostAndComment\<close> resolves with, \<open>success + failed\<close> is the number of
  returned records that have an \<open>ok\<close>: over the sessions the workers claimed (all of
  them when there is a worker and no poll sees the stop flag), one per-session failure
  Outcome for a session whose directory is missing or whose scan of the pinned anchors
  failed, plus one per-target Outcome \<open>{session, group, ok}\<close> for every target the
  session reached; the per-attempt records \<open>{post, comment, message}\<close> are counted in
  neither. The top-level Outcomes of the returned list are the per-session failure
  Outcomes alone, so the sum exceeds their number by the number of targets reached. In
  every summary that \<open>startCreateSessions\<close> returns (either text), all returned
  records are per-account Outcomes, all top-level, and \<open>success + failed\<close> is their
  number.
\<close>

theorem returned_summaries_count_ok_records:
  "(startPostAndComment w flag hrefs schedule userId sessionNames concurrency = Resolved ret \<longrightarrow>
      postSummary ret = summarize (postResults ret) \<and>
      (\<exists>userDir c.
         ensureUserDir w userId = Inr userDir \<and> c \<le> length sessionNames \<and>
         (0 < concurrency \<and> (\<forall>i q. \<not> flag i q) \<longrightarrow> c = length sessionNames) \<and>
         success (postSummary ret) + failed (postSummary ret)
           = (\<Sum>i<c. sessionFailures w (flag i) userDir i (sessionNames ! i)
                     + targetOutcomes w (flag i) (hrefs i) userDir i (sessionNames ! i)) \<and>
         length (filter topLevel (postResults ret))
           = (\<Sum>i<c. sessionFailures w (flag i) userDir i (sessionNames ! i))))
   \<and> (startCreateSessions_a w flag schedule userId accounts concurrency = Resolved ret_a \<longrightarrow>
        returnedSummary ret_a = summarize (returnedResults ret_a) \<and>
        success (returnedSummary ret_a) + failed (returnedSummary ret_a)
          = length (returnedResults ret_a) \<and>
        length (filter topLevel (returnedResults ret_a)) = length (returnedResults ret_a))
   \<and> (startCreateSessions_b w userId accounts concurrency = Inr ret_b \<longrightarrow>
        returnedSummary ret_b = summarize (returnedResults ret_b) \<and>
        success (returnedSummary ret_b) + failed (returnedSummary ret_b)
          = length (returnedResults ret_b) \<and>
        length (filter topLevel (returnedResults ret_b)) = length (returnedResults ret_b))"
proof (intro conjI impI)
  assume r: "startPostAndComment w flag hrefs schedule userId sessionNames concurrency = Resolved ret"
  then obtain userDir where u: "ensureUserDir w userId = Inr userDir"
    by (auto simp: startPostAndComment_def split: sum.splits)
  let ?plans = "postPlan w flag hrefs userDir sessionNames"
  let ?p = "pool (length sessionNames) (\<lambda>c. flag c LoopHead) ?plans schedule concurrency"
  from r u have "settle ?p startPostAndComment_return = Resolved ret"
    by (simp add: startPostAndComment_def)
  from settle_Resolved [OF this]
  have ret: "ret = startPostAndComment_return (collected ?p)"
    and c: "cursor ?p \<le> length sessionNames"
    and full: "0 < concurrency \<and> neverLeaves (\<lambda>c. flag c LoopHead) ?plans \<longrightarrow>
                 cursor ?p = length sessionNames"
    and cnt: "\<And>P. length (filter P (collected ?p)) = claimedCount P ?plans (cursor ?p)"
    by auto
  show s: "postSummary ret = summarize (postResults ret)"
    using ret by (simp add: startPostAndComment_return_def)
  have pushes: "planPushes (?plans i)
                  = postPushed (postItem w (flag i) (hrefs i) userDir i (sessionNames ! i))" for i
    by (simp add: postPlan_def Let_def)
  have a: "success (postSummary ret) + failed (postSummary ret)
           = (\<Sum>i<cursor ?p. sessionFailures w (flag i) userDir i (sessionNames ! i)
                     + targetOutcomes w (flag i) (hrefs i) userDir i (sessionNames ! i))"
    unfolding s summarize_counts_ok
    using cnt [of "\<lambda>r. hasOk r"] ret
    by (simp add: startPostAndComment_return_def claimedCount_def pushes postItem_counts)
  have b: "length (filter topLevel (postResults ret))
           = (\<Sum>i<cursor ?p. sessionFailures w (flag i) userDir i (sessionNames ! i))"
    using cnt [of topLevel] ret
    by (simp add: startPostAndComment_return_def claimedCount_def pushes postItem_counts)
  have f: "0 < concurrency \<and> (\<forall>i q. \<not> flag i q) \<longrightarrow> cursor ?p = length sessionNames"
  proof
    assume h: "0 < concurrency \<and> (\<forall>i q. \<not> flag i q)"
    have "\<not> planBreak (?plans i)" for i
      using postItem_break [of w "flag i" "hrefs i" userDir i "sessionNames ! i"] h
      by (auto simp: postPlan_def Let_def)
    then have "neverLeaves (\<lambda>c. flag c LoopHead) ?plans" using h by (simp add: neverLeaves_def)
    with full h show "cursor ?p = length sessionNames" by simp
  qed
  from u c f a b
  show "\<exists>userDir c.
         ensureUserDir w userId = Inr userDir \<and> c \<le> length sessionNames \<and>
         (0 < concurrency \<and> (\<forall>i q. \<not> flag i q) \<longrightarrow> c = length sessionNames) \<and>
         success (postSummary ret) + failed (postSummary ret)
           = (\<Sum>i<c. sessionFailures w (flag i) userDir i (sessionNames ! i)
                     + targetOutcomes w (flag i) (hrefs i) userDir i (sessionNames ! i)) \<and>
         length (filter topLevel (postResults ret))
           = (\<Sum>i<c. sessionFailures w (flag i) userDir i (sessionNames ! i))"
    by blast
next
  assume r: "startCreateSessions_a w flag schedule userId accounts concurrency = Resolved ret_a"
  then obtain userDir where u: "ensureUserDir w userId = Inr userDir"
    by (auto simp: startCreateSessions_a_def split: sum.splits)
  let ?plans = "createPlan_a w flag userDir accounts"
  let ?p = "pool (length accounts) (\<lambda>c. flag c LoopHead) ?plans schedule concurrency"
  let ?build = "\<lambda>rs. \<lparr>returnedResults = rs, returnedSummary = summarize rs,
                    workerStates = replicate concurrency Returned\<rparr>"
  from r u have "settle ?p ?build = Resolved ret_a"
    by (simp add: startCreateSessions_a_def)
  from settle_Resolved [OF this]
  have ret: "ret_a = ?build (collected ?p)"
    and cnt: "\<And>P. length (filter P (collected ?p)) = claimedCount P ?plans (cursor ?p)"
    by auto
  have "list_all (\<lambda>r. \<not> \<not> (topLevel r \<and> hasOk r)) (planPushes (?plans i))" for i
    using createItem_a_pushes by (simp add: createPlan_a_def Let_def)
  from claimedCount_zero [of "\<lambda>r. \<not> (topLevel r \<and> hasOk r)" ?plans, OF this]
  have "length (filter (\<lambda>r. \<not> (topLevel r \<and> hasOk r)) (collected ?p)) = 0"
    using cnt by simp
  from filter_none [OF this]
  have all: "list_all (\<lambda>r. topLevel r \<and> hasOk r) (returnedResults ret_a)"
    using ret by simp
  show s: "returnedSummary ret_a = summarize (returnedResults ret_a)"
    using ret by simp
  show "success (returnedSummary ret_a) + failed (returnedSummary ret_a)
          = length (returnedResults ret_a)"
    unfolding s summarize_counts_ok using all by (simp add: list_all_iff)
  show "length (filter topLevel (returnedResults ret_a)) = length (returnedResults ret_a)"
    using all by (simp add: list_all_iff)
next
  assume r: "startCreateSessions_b w userId accounts concurrency = Inr ret_b"
  show s: "returnedSummary ret_b = summarize (returnedResults ret_b)"
    using r by (auto simp: startCreateSessions_b_def split_beta Let_def split: sum.splits)
  have tl: "\<forall>r \<in> set (returnedResults ret_b). topLevel r \<and> hasOk r"
    by (rule startCreateSessions_b_accounts_only [OF r])
  show "success (returnedSummary ret_b) + failed (returnedSummary ret_b)
          = length (returnedResults ret_b)"
    unfolding s summarize_counts_ok using tl by simp
  show "length (filter topLevel (returnedResults ret_b)) = length (returnedResults ret_b)"
    using tl by simp
qed

text \<open>
  The amended claim at the scenario: the three entry points return, there is a worker
  and no poll sees the flag, and the one session, claimed, has no failure Outcome and
  two targets reached.
\<close>

theorem returned_summaries_count_ok_records_witness:
  "startPostAndComment openWorld neverStopped twoGroups [0, 0, 0, 0, 0] ''t1'' [''A''] 1
     = Resolved
         \<lparr>postResults =
            [AttemptRecord True True ''Postingan dan komentar berhasil'',
             TargetOutcome ''A'' ''https://www.facebook.com/groups/1'' True,
             AttemptRecord True True ''Postingan dan komentar berhasil'',
             TargetOutcome ''A'' ''https://www.facebook.com/groups/2/'' True],
          postSummary = \<lparr>success = 2, failed = 0\<rparr>\<rparr>
   \<and> (0 < (1::nat) \<and> (\<forall>i q. \<not> neverStopped i q))
   \<and> startCreateSessions_a openWorld neverStopped [0, 0, 0, 0, 0] ''t1'' [acct111] 1
     = Resolved
         \<lparr>returnedResults = [AccountOutcome ''111'' ''a@x.com'' True (Some ''./data/t1/111'') None],
          returnedSummary = \<lparr>success = 1, failed = 0\<rparr>, workerStates = [Returned]\<rparr>
   \<and> startCreateSessions_b openWorld ''t1'' [acct111] 1
     = Inr \<lparr>returnedResults = [], returnedSummary = \<lparr>success = 0, failed = 0\<rparr>,
            workerStates = [AwaitingLaunch 0]\<rparr>
   \<and> (\<Sum>i<length [''A''].
         sessionFailures openWorld (neverStopped i) ''./data/t1'' i ([''A''] ! i)
         + targetOutcomes openWorld (neverStopped i) (twoGroups i) ''./data/t1'' i ([''A''] ! i)) = 2
   \<and> (\<Sum>i<length [''A''].
         sessionFailures openWorld (neverStopped i) ''./data/t1'' i ([''A''] ! i)) = 0"
proof -
  let ?R = "\<lparr>postResults =
            [AttemptRecord True True ''Postingan dan komentar berhasil'',
             TargetOutcome ''A'' ''https://www.facebook.com/groups/1'' True,
             AttemptRecord True True ''Postingan dan komentar berhasil'',
             TargetOutcome ''A'' ''https://www.facebook.com/groups/2/'' True],
          postSummary = \<lparr>success = 2, failed = 0\<rparr>\<rparr>"
  let ?Ra = "\<lparr>returnedResults = [AccountOutcome ''111'' ''a@x.com'' True (Some ''./data/t1/111'') None],
          returnedSummary = \<lparr>success = 1, failed = 0\<rparr>, workerStates = [Returned]\<rparr>"
  let ?Rb = "\<lparr>returnedResults = [], returnedSummary = \<lparr>success = 0, failed = 0\<rparr>,
            workerStates = [AwaitingLaunch 0]\<rparr>"
  note t = returned_summaries_count_ok_records
    [where w = openWorld and flag = neverStopped and hrefs = twoGroups
       and schedule = "[0, 0, 0, 0, 0]" and userId = "''t1''" and sessionNames = "[''A'']"
       and concurrency = 1 and ret = ?R and accounts = "[acct111]" and ret_a = ?Ra
       and ret_b = ?Rb]
  have h: "0 < (1::nat) \<and> (\<forall>i q. \<not> neverStopped i q)"
    by (simp add: neverStopped_def)
  from mp [OF conjunct1 [OF t] twoGroups_run] obtain userDir c where
    u: "ensureUserDir openWorld ''t1'' = Inr userDir"
    and c: "0 < (1::nat) \<and> (\<forall>i q. \<not> neverStopped i q) \<longrightarrow> c = length [''A'']"
    and s: "success (postSummary ?R) + failed (postSummary ?R)
              = (\<Sum>i<c. sessionFailures openWorld (neverStopped i) userDir i ([''A''] ! i)
                   + targetOutcomes openWorld (neverStopped i) (twoGroups i) userDir i ([''A''] ! i))"
    and tl: "length (filter topLevel (postResults ?R))
              = (\<Sum>i<c. sessionFailures openWorld (neverStopped i) userDir i ([''A''] ! i))"
    by blast
  have ud: "userDir = ''./data/t1''"
    using u by (simp add: ensureUserDir_def openWorld_def stubWorld_def)
  have c1: "c = length [''A'']" using c h by blast
  have s2: "(\<Sum>i<length [''A''].
         sessionFailures openWorld (neverStopped i) ''./data/t1'' i ([''A''] ! i)
         + targetOutcomes openWorld (neverStopped i) (twoGroups i) ''./data/t1'' i ([''A''] ! i)) = 2"
    using s unfolding ud c1 by simp
  have tl2: "(\<Sum>i<length [''A''].
         sessionFailures openWorld (neverStopped i) ''./data/t1'' i ([''A''] ! i)) = 0"
    using tl unfolding ud c1 by simp
  from twoGroups_run h oneAccount_run_a oneAccount_run_b s2 tl2 show ?thesis by blast
qed

end
